theory Spec2Isabelle
  imports Main "HOL-Library.AList" "HOL-Library.Multiset"
begin

section \<open>Tokens and the XML decoder\<close>

text \<open>
  The flattener of \<^verbatim>\<open>parser.go\<close> reads a document through the tokens of
  \<^verbatim>\<open>encoding/xml\<close>. Of a start or end element it uses \<^verbatim>\<open>Name.Local\<close> only, so
  an element token carries that name. Comments, processing instructions and directives
  are tokens that no branch of the \<^verbatim>\<open>switch\<close> handles.
\<close>

datatype token =
    StartElement string
  | EndElement string
  | CharData string
  | Comment string
  | ProcInst string string
  | Directive string

text \<open>
  A decoder is the sequence of tokens it has still to deliver, and the way the stream ends:
  \<^verbatim>\<open>io.EOF\<close>, or a syntax error (an unterminated tag, a mismatched end tag, an unexpected end
  of input inside an open element). The decoder keeps its error: once the tokens are used
  up, every further call of \<^verbatim>\<open>Token\<close> returns the same ending again.
\<close>

datatype ending = EOF | SyntaxError

type_synonym decoder = "token list \<times> ending"

section \<open>Trimming\<close>

text \<open>
  \<^verbatim>\<open>strings.TrimSpace\<close> removes the leading and trailing runes that have Unicode's
  White\_Space property. Strings are byte strings in UTF-8, so each such rune is listed by
  its encoding: U+0009 to U+000D, U+0020, U+0085, U+00A0, U+1680, U+2000 to U+200A, U+2028,
  U+2029, U+202F, U+205F, U+3000.
\<close>

definition whiteSpace :: "string list" where
  "whiteSpace =
    [[CHR 0x09], [CHR 0x0A], [CHR 0x0B], [CHR 0x0C], [CHR 0x0D], [CHR 0x20],
     [CHR 0xC2, CHR 0x85], [CHR 0xC2, CHR 0xA0],
     [CHR 0xE1, CHR 0x9A, CHR 0x80],
     [CHR 0xE2, CHR 0x80, CHR 0x80], [CHR 0xE2, CHR 0x80, CHR 0x81],
     [CHR 0xE2, CHR 0x80, CHR 0x82], [CHR 0xE2, CHR 0x80, CHR 0x83],
     [CHR 0xE2, CHR 0x80, CHR 0x84], [CHR 0xE2, CHR 0x80, CHR 0x85],
     [CHR 0xE2, CHR 0x80, CHR 0x86], [CHR 0xE2, CHR 0x80, CHR 0x87],
     [CHR 0xE2, CHR 0x80, CHR 0x88], [CHR 0xE2, CHR 0x80, CHR 0x89],
     [CHR 0xE2, CHR 0x80, CHR 0x8A],
     [CHR 0xE2, CHR 0x80, CHR 0xA8], [CHR 0xE2, CHR 0x80, CHR 0xA9],
     [CHR 0xE2, CHR 0x80, CHR 0xAF], [CHR 0xE2, CHR 0x81, CHR 0x9F],
     [CHR 0xE3, CHR 0x80, CHR 0x80]]"

definition leadingSpace :: "string \<Rightarrow> nat" where
  "leadingSpace s = (case find (\<lambda>w. take (length w) s = w) whiteSpace of None \<Rightarrow> 0 | Some w \<Rightarrow> length w)"

definition trailingSpace :: "string \<Rightarrow> nat" where
  "trailingSpace s = (case find (\<lambda>w. length w \<le> length s \<and> drop (length s - length w) s = w) whiteSpace of None \<Rightarrow> 0 | Some w \<Rightarrow> length w)"

function trimLeft :: "string \<Rightarrow> string" where
  "trimLeft s = (if leadingSpace s = 0 then s else trimLeft (drop (leadingSpace s) s))"
  by pat_completeness auto
termination
proof (relation "measure length")
  fix s :: string
  assume "leadingSpace s \<noteq> 0"
  moreover have "leadingSpace [] = 0"
    by (simp add: leadingSpace_def whiteSpace_def)
  ultimately have "s \<noteq> []" by auto
  with \<open>leadingSpace s \<noteq> 0\<close> show "(drop (leadingSpace s) s, s) \<in> measure length"
    by simp
qed simp

function trimRight :: "string \<Rightarrow> string" where
  "trimRight s =
     (if trailingSpace s = 0 then s else trimRight (take (length s - trailingSpace s) s))"
  by pat_completeness auto
termination
proof (relation "measure length")
  fix s :: string
  assume "trailingSpace s \<noteq> 0"
  moreover have "trailingSpace [] = 0"
    by (simp add: trailingSpace_def whiteSpace_def)
  ultimately have "s \<noteq> []" by auto
  with \<open>trailingSpace s \<noteq> 0\<close> show "(take (length s - trailingSpace s) s, s) \<in> measure length"
    by simp
qed simp

definition TrimSpace :: "string \<Rightarrow> string" where
  "TrimSpace s = trimRight (trimLeft s)"

section \<open>The record, the sink and the shared counter\<close>

text \<open>
  \<^verbatim>\<open>Xmler.Record\<close> is a Go map from strings to slices of strings. It is an association
  list with one entry per key. Reading a missing key gives the nil slice; assigning to a
  key replaces its entry or adds one.
\<close>

type_synonym record_map = "(string \<times> string list) list"

definition index :: "record_map \<Rightarrow> string \<Rightarrow> string list" where
  "index m k = (case map_of m k of None \<Rightarrow> [] | Some data \<Rightarrow> data)"

definition assign :: "string \<Rightarrow> string list \<Rightarrow> record_map \<Rightarrow> record_map" where
  "assign k data m = AList.update k data m"

text \<open>
  Go leaves the order in which \<^verbatim>\<open>range\<close> walks a map unspecified, and the runtime changes
  it from one loop to the next. The order is a parameter of the model: \<open>ord n m\<close> is
  the sequence in which the \<open>n\<close>-th \<^verbatim>\<open>range\<close> loop of the run visits the entries of
  \<open>m\<close>. An order that the runtime can produce visits every entry once.
\<close>

type_synonym order = "nat \<Rightarrow> record_map \<Rightarrow> record_map"

definition visits_all :: "order \<Rightarrow> bool" where
  "visits_all ord \<longleftrightarrow> (\<forall>n m. mset (ord n m) = mset m)"

text \<open>
  The sink is the \<^verbatim>\<open>csv.Writer\<close> over the file \<^verbatim>\<open>resolve.csv\<close>. \<open>sheet\<close> holds
  the rows that have reached the file, \<open>buffered\<close> the rows written and not yet flushed.
  The file accepts \<open>room\<close> more rows; a flush beyond that fails, and the buffered writer
  under \<^verbatim>\<open>csv.Writer\<close> keeps its first error: every later \<^verbatim>\<open>Write\<close>,
  \<^verbatim>\<open>Flush\<close> and \<^verbatim>\<open>Error\<close> reports it.
\<close>

record writer =
  sheet :: "string list list"
  buffered :: "string list list"
  room :: nat
  failed :: bool

definition Write :: "string list \<Rightarrow> writer \<Rightarrow> bool \<times> writer" where
  "Write row w =
     (if failed w then (False, w) else (True, w\<lparr>buffered := buffered w @ [row]\<rparr>))"

definition Flush :: "writer \<Rightarrow> writer" where
  "Flush w =
     (if failed w then w
      else if length (buffered w) \<le> room w
      then w\<lparr>sheet := sheet w @ buffered w, buffered := [],
             room := room w - length (buffered w)\<rparr>
      else w\<lparr>failed := True\<rparr>)"

definition Error :: "writer \<Rightarrow> bool" where
  "Error w = failed w"

datatype error =
    CreateFailed
  | HeaderWriteFailed
  | HeaderFlushFailed
  | ReadDirFailed
  | FinalFlushFailed
  | WriteRowFailed
  | FlushRowFailed
  | XMLParsingError

text \<open>
  The lines that \<^verbatim>\<open>ParseXMLs\<close>, \<^verbatim>\<open>generateRows\<close> and \<^verbatim>\<open>flatten\<close> log. A path is
  the directory and the name that \<^verbatim>\<open>filepath.Join\<close> puts together.
\<close>

type_synonym path = "string \<times> string"

datatype logline =
    ErrorReadingDirectory path
  | ErrorProcessing path error
  | ErrorOpeningFile path
  | ErrorParsingXML path error
  | Processed int

text \<open>
  What a worker reads and writes: its own \<^verbatim>\<open>Xmler\<close> (the record and the writer, which
  every worker shares), the process-wide counter \<^verbatim>\<open>myInt\<close>, the log, and the number of
  \<^verbatim>\<open>range\<close> loops run so far, which selects the iteration order.
\<close>

record state =
  Record :: record_map
  Writer :: writer
  myInt :: int
  logged :: "logline list"
  ranges :: nat

section \<open>The flattener\<close>

text \<open>The cell of one record entry (\<^verbatim>\<open>parser.go\<close>, lines 134 to 146).\<close>

definition cell :: "string list \<Rightarrow> string" where
  "cell data =
     (if length data > 1 then fold (\<lambda>b builder. builder @ b) data []
      else if length data = 1 then data ! 0
      else [])"

text \<open>The row of a record: one cell per entry, in the order of the loop (lines 132 to 147).\<close>

definition buildRow :: "record_map \<Rightarrow> string list" where
  "buildRow visited = fold (\<lambda>(k, data) row. row @ [cell data]) visited []"

text \<open>
  The branch taken at \<^verbatim>\<open>io.EOF\<close> (lines 129 to 165): the row is built, written and
  flushed under the lock, and when both succeeded the counter is advanced, with a log line
  at every thousandth row.
\<close>

definition countProcessed :: "state \<Rightarrow> state" where
  "countProcessed s =
     (let s1 = s\<lparr>myInt := myInt s + 1\<rparr>
      in if myInt s1 mod 1000 = 0 then s1\<lparr>logged := logged s1 @ [Processed (myInt s1)]\<rparr>
         else s1)"

definition emitRow :: "order \<Rightarrow> state \<Rightarrow> error option \<times> state" where
  "emitRow ord s =
     (let row = buildRow (ord (ranges s) (Record s));
          s1 = s\<lparr>ranges := Suc (ranges s)\<rparr>;
          (ok, w1) = Write row (Writer s1)
      in if \<not> ok then (Some WriteRowFailed, s1\<lparr>Writer := w1\<rparr>)
         else let w2 = Flush w1
              in if Error w2 then (Some FlushRowFailed, s1\<lparr>Writer := w2\<rparr>)
                 else (None, countProcessed (s1\<lparr>Writer := w2\<rparr>)))"

text \<open>The branch for character data (lines 179 to 186).\<close>

definition onCharData :: "string \<Rightarrow> string \<Rightarrow> string \<Rightarrow> record_map \<Rightarrow> record_map" where
  "onCharData prefix lastTag t m =
     (let val = TrimSpace t;
          m1 = (if val \<noteq> [] then assign prefix (index m prefix @ [val]) m else m)
      in if map_of m1 lastTag = None then assign lastTag [] m1 else m1)"

text \<open>
  \<^verbatim>\<open>flatten\<close> (lines 125 to 194). The loop is the recursion; \<open>element\<close> is
  \<^verbatim>\<open>element.Name.Local\<close> and \<open>lastTag\<close> the variable \<^verbatim>\<open>lastTag\<close>, both as they
  stand at the head of the loop. A start element assigns both before the recursive call
  (lines 173 and 174), so the loop goes on with the child's name in each. The result is the
  error returned (\<open>None\<close> for \<^verbatim>\<open>nil\<close>), the decoder and the state left behind.
\<close>

function flatten_loop ::
  "order \<Rightarrow> string \<Rightarrow> string \<Rightarrow> string \<Rightarrow> decoder \<Rightarrow> state \<Rightarrow> error option \<times> decoder \<times> state"
where
  "flatten_loop ord element lastTag prefix ([], EOF) s =
     (case emitRow ord s of (r, s') \<Rightarrow> (r, ([], EOF), s'))"
| "flatten_loop ord element lastTag prefix ([], SyntaxError) s =
     (Some XMLParsingError, ([], SyntaxError), s)"
| "flatten_loop ord element lastTag prefix (StartElement n # ts, fin) s =
     (let r = flatten_loop ord n [] (prefix @ ''.'' @ n) (ts, fin) s
      in if fst r \<noteq> None then r
         else flatten_loop ord n n prefix (fst (snd r)) (snd (snd r)))"
| "flatten_loop ord element lastTag prefix (CharData t # ts, fin) s =
     flatten_loop ord element lastTag prefix (ts, fin)
       (s\<lparr>Record := onCharData prefix lastTag t (Record s)\<rparr>)"
| "flatten_loop ord element lastTag prefix (EndElement n # ts, fin) s =
     (if n = element then (None, (ts, fin), s)
      else flatten_loop ord element lastTag prefix (ts, fin) s)"
| "flatten_loop ord element lastTag prefix (Comment c # ts, fin) s =
     flatten_loop ord element lastTag prefix (ts, fin) s"
| "flatten_loop ord element lastTag prefix (ProcInst c i # ts, fin) s =
     flatten_loop ord element lastTag prefix (ts, fin) s"
| "flatten_loop ord element lastTag prefix (Directive c # ts, fin) s =
     flatten_loop ord element lastTag prefix (ts, fin) s"
  by pat_completeness auto

termination
proof -
  have shrink: "length (fst (fst (snd (flatten_loop ord el lt pre d s)))) \<le> length (fst d)"
    if "flatten_loop_dom (ord, el, lt, pre, d, s)" for ord el lt pre d s
    using that
  proof (induct rule: flatten_loop.pinduct)
    case (3 ord element lastTag prefix n ts fin s)
    then show ?case
      by (auto simp: flatten_loop.psimps Let_def)
  qed (auto simp: flatten_loop.psimps split: prod.splits)
  show ?thesis
  proof (relation "measure (\<lambda>(ord, el, lt, pre, d, s). length (fst d))", goal_cases)
    case 1
    show ?case by simp
  next
    case (3 ord element lastTag prefix n ts fin s r)
    then show ?case
      using shrink [of ord n "[]" "prefix @ ''.'' @ n" "(ts, fin)" s]
      by (simp add: case_prod_beta)
  qed simp_all
qed

text \<open>
  A call of \<^verbatim>\<open>flatten\<close> enters the loop with \<^verbatim>\<open>lastTag\<close> empty (line 126).
\<close>

definition flatten ::
  "order \<Rightarrow> string \<Rightarrow> decoder \<Rightarrow> string \<Rightarrow> state \<Rightarrow> error option \<times> decoder \<times> state"
where
  "flatten ord element decoder prefix s = flatten_loop ord element [] prefix decoder s"

section \<open>Workers and the run\<close>

text \<open>
  An entry of a shard directory: its name, whether it is a directory, and what
  \<^verbatim>\<open>os.Open\<close> gives for it: no file, or the document that the decoder will read.
\<close>

record DirEntry =
  Name :: string
  IsDir :: bool
  Open :: "decoder option"

text \<open>
  \<^verbatim>\<open>generateRows\<close> (lines 100 to 123). Every document is flattened from the empty
  start element and the empty prefix, into the record the worker was given. An entry that
  is a directory is passed over; a file that cannot be opened and an error of
  \<^verbatim>\<open>flatten\<close>, whichever it is, are logged and the loop goes on. The result is always
  \<^verbatim>\<open>nil\<close>.
\<close>

fun generateRows :: "order \<Rightarrow> string \<Rightarrow> DirEntry list \<Rightarrow> state \<Rightarrow> error option \<times> state" where
  "generateRows ord root [] s = (None, s)"
| "generateRows ord root (file # files) s =
     (if IsDir file then generateRows ord root files s
      else case Open file of
             None \<Rightarrow>
               generateRows ord root files
                 (s\<lparr>logged := logged s @ [ErrorOpeningFile (root, Name file)]\<rparr>)
           | Some decoder \<Rightarrow>
               (case flatten ord [] decoder [] s of
                  (Some err, d, s') \<Rightarrow>
                    generateRows ord root files
                      (s'\<lparr>logged := logged s' @ [ErrorParsingXML (root, Name file) err]\<rparr>)
                | (None, d, s') \<Rightarrow> generateRows ord root files s'))"

text \<open>
  The root directory \<^verbatim>\<open>./data/990_zips/\<close>: whether \<^verbatim>\<open>resolve.csv\<close> can be created
  and how many rows it accepts, and the listing of the root, if it can be read. An entry of
  the root has a name and the listing that \<^verbatim>\<open>os.ReadDir\<close> gives for it, if any.
\<close>

record RootEntry =
  EntryName :: string
  ReadDir :: "DirEntry list option"

record filesystem =
  Create :: bool
  Capacity :: nat
  Root :: "RootEntry list option"

text \<open>
  The regular expression \<^verbatim>\<open>.zip\<close> matches a name that holds \<^verbatim>\<open>zip\<close> after any
  character other than a line feed.
\<close>

fun Match :: "string \<Rightarrow> bool" where
  "Match [] = False"
| "Match (c # cs) = ((c \<noteq> CHR 0x0A \<and> take 3 cs = ''zip'') \<or> Match cs)"

definition header :: "string list" where
  "header = [''FileName'', ''EIN'', ''OrganizationName'', ''TaxYear'', ''ReturnType'']"
definition pathway :: string where
  "pathway = ''./data/990_zips/''"

text \<open>
  \<^verbatim>\<open>filepath.Join\<close> of two elements, with the slash as separator: the elements from the
  first non-empty one on are put together with a slash between them and the result is
  cleaned. \<^verbatim>\<open>filepath.Clean\<close> drops empty elements and the elements \<^verbatim>\<open>.\<close>, lets
  \<^verbatim>\<open>..\<close> remove the element before it (at the root it is dropped, and at the head of a
  relative path it stays), and turns the empty path into \<^verbatim>\<open>.\<close>.
\<close>

fun components :: "string \<Rightarrow> string list" where
  "components [] = [[]]"
| "components (c # cs) =
     (if c = CHR ''/'' then [] # components cs
      else case components cs of [] \<Rightarrow> [[c]] | e # es \<Rightarrow> (c # e) # es)"

definition step_up :: "bool \<Rightarrow> string list \<Rightarrow> string \<Rightarrow> string list" where
  "step_up rooted out e =
     (if e = [] \<or> e = ''.'' then out
      else if e = ''..'' then
        (if out \<noteq> [] \<and> last out \<noteq> ''..'' then butlast out
         else if rooted then out
         else out @ [e])
      else out @ [e])"

fun joined :: "string list \<Rightarrow> string" where
  "joined [] = []"
| "joined [e] = e"
| "joined (e # es) = e @ ''/'' @ joined es"

definition Clean :: "string \<Rightarrow> string" where
  "Clean p =
     (let rooted = (take 1 p = ''/'');
          out = foldl (step_up rooted) [] (components p);
          cleaned = (if rooted then ''/'' else []) @ joined out
      in if cleaned = [] then ''.'' else cleaned)"

definition Join :: "string \<Rightarrow> string \<Rightarrow> string" where
  "Join a b =
     (if a \<noteq> [] then Clean (a @ ''/'' @ b)
      else if b \<noteq> [] then Clean b
      else [])"

section \<open>Workers that run at the same time\<close>

text \<open>
  The loop over the root (lines 62 to 89) starts one goroutine for every entry whose name
  does not match and whose directory can be listed. The goroutines run at the same time as
  the loop and as each other, at most \<^verbatim>\<open>MAXPROCS\<close> of them. Each has a record of its
  own, made empty (line 79), and runs \<^verbatim>\<open>generateRows\<close> on its directory. What they
  share is the writer, which they use under the lock \<^verbatim>\<open>rw\<close> only, the counter
  \<^verbatim>\<open>myInt\<close>, which is atomic, and the log, whose lines are written one at a time.

  A run is therefore a sequence of steps, each taken by the loop or by one worker, and each
  holding one access to what is shared together with what the worker does on its own
  before the next one. Which of them takes the next step is not decided by the program. It
  is a parameter of the model, the schedule, as the iteration order of the map is.
\<close>

text \<open>
  The part of the branch at \<^verbatim>\<open>io.EOF\<close> that runs under the lock (lines 131 to 158): the row
  is built, written and flushed. \<open>emitRow\<close> is this followed by the count.
\<close>

definition writeRow :: "order \<Rightarrow> state \<Rightarrow> error option \<times> state" where
  "writeRow ord s =
     (let row = buildRow (ord (ranges s) (Record s));
          s1 = s\<lparr>ranges := Suc (ranges s)\<rparr>;
          (ok, w1) = Write row (Writer s1)
      in if \<not> ok then (Some WriteRowFailed, s1\<lparr>Writer := w1\<rparr>)
         else let w2 = Flush w1
              in if Error w2 then (Some FlushRowFailed, s1\<lparr>Writer := w2\<rparr>)
                 else (None, s1\<lparr>Writer := w2\<rparr>))"

text \<open>
  A call of \<^verbatim>\<open>flatten\<close> that is open, as the loop of lines 127 to 193 sees it: the name
  in \<^verbatim>\<open>element\<close>, the variable \<^verbatim>\<open>lastTag\<close> and the prefix. A worker has the stack of
  its open calls, the innermost first.

  Between two rows \<^verbatim>\<open>flatten\<close> touches nothing but the decoder and the worker's own
  record. \<open>advance\<close> is that stretch: it reads tokens until the decoder has no more or the
  outermost call has returned. A start element assigns \<^verbatim>\<open>lastTag\<close> and \<^verbatim>\<open>element\<close>
  in the calling loop (lines 173 and 174) and opens a call with an empty \<^verbatim>\<open>lastTag\<close>
  (line 126); an end element with the name in \<^verbatim>\<open>element\<close> returns from the innermost
  call (line 190).
\<close>

type_synonym frame = "string \<times> string \<times> string"

fun advance ::
  "frame list \<Rightarrow> token list \<Rightarrow> record_map \<Rightarrow> frame list \<times> token list \<times> record_map"
where
  "advance [] ts m = ([], ts, m)"
| "advance (c # cs) [] m = (c # cs, [], m)"
| "advance ((element, lastTag, prefix) # cs) (StartElement n # ts) m =
     advance ((n, [], prefix @ ''.'' @ n) # (n, n, prefix) # cs) ts m"
| "advance ((element, lastTag, prefix) # cs) (CharData t # ts) m =
     advance ((element, lastTag, prefix) # cs) ts (onCharData prefix lastTag t m)"
| "advance ((element, lastTag, prefix) # cs) (EndElement n # ts) m =
     (if n = element then advance cs ts m
      else advance ((element, lastTag, prefix) # cs) ts m)"
| "advance (c # cs) (tok # ts) m = advance (c # cs) ts m"

text \<open>
  What a worker has to do next on what is shared, before it goes on with its documents:
  nothing, a line to log, or a step of the count that follows a row (lines 160 to 163):
  the addition, the load that is tested, and the load whose value is logged.
\<close>

datatype pending = Idle | Say logline | Count | Check | Tell

text \<open>
  A worker: the path it was started with, the entries of its directory that
  \<^verbatim>\<open>generateRows\<close> has yet to visit, the name of the file it has open, its open calls
  of \<^verbatim>\<open>flatten\<close>, how the tokens of the open file end, what it has to do next, and its
  record.
\<close>

record worker =
  dirPath :: string
  entries :: "DirEntry list"
  fileName :: string
  calls :: "frame list"
  atEnd :: ending
  due :: pending
  xRecord :: record_map

text \<open>
  One step of a worker. With calls open, the decoder is at its end: at \<^verbatim>\<open>io.EOF\<close> the
  innermost call writes a row of the worker's record under the lock and returns
  \<^verbatim>\<open>nil\<close> to the call around it, which meets \<^verbatim>\<open>io.EOF\<close> in its turn; an error
  goes up through every open call to \<^verbatim>\<open>generateRows\<close>, which logs it with the path of
  the file (line 116). With no call open, \<^verbatim>\<open>generateRows\<close> takes the next entry
  (lines 101 to 114). \<^verbatim>\<open>generateRows\<close> returns \<^verbatim>\<open>nil\<close> in every case, so the branch
  of lines 84 and 85 is never taken and has no step.
\<close>

definition wstep :: "order \<Rightarrow> worker \<Rightarrow> state \<Rightarrow> worker \<times> state" where
  "wstep ord w s =
     (case due w of
        Say line \<Rightarrow> (w\<lparr>due := Idle\<rparr>, s\<lparr>logged := logged s @ [line]\<rparr>)
      | Count \<Rightarrow> (w\<lparr>due := Check\<rparr>, s\<lparr>myInt := myInt s + 1\<rparr>)
      | Check \<Rightarrow> (w\<lparr>due := (if myInt s mod 1000 = 0 then Tell else Idle)\<rparr>, s)
      | Tell \<Rightarrow> (w\<lparr>due := Say (Processed (myInt s))\<rparr>, s)
      | Idle \<Rightarrow>
          (case calls w of
             c # cs \<Rightarrow>
               (case atEnd w of
                  EOF \<Rightarrow>
                    (case writeRow ord (s\<lparr>Record := xRecord w\<rparr>) of
                       (None, s') \<Rightarrow> (w\<lparr>calls := cs, due := Count\<rparr>, s')
                     | (Some err, s') \<Rightarrow>
                         (w\<lparr>calls := [],
                            due := Say (ErrorParsingXML (dirPath w, fileName w) err)\<rparr>, s'))
                | SyntaxError \<Rightarrow>
                    (w\<lparr>calls := [],
                       due := Say (ErrorParsingXML (dirPath w, fileName w) XMLParsingError)\<rparr>,
                     s))
           | [] \<Rightarrow>
               (case entries w of
                  [] \<Rightarrow> (w, s)
                | file # files \<Rightarrow>
                    if IsDir file then (w\<lparr>entries := files\<rparr>, s)
                    else case Open file of
                           None \<Rightarrow>
                             (w\<lparr>entries := files,
                                due := Say (ErrorOpeningFile (dirPath w, Name file))\<rparr>, s)
                         | Some decoder \<Rightarrow>
                             (case advance [([], [], [])] (fst decoder) (xRecord w) of
                                (cs, ts, m) \<Rightarrow>
                                  (w\<lparr>entries := files, fileName := Name file, calls := cs,
                                     atEnd := snd decoder, xRecord := m\<rparr>, s)))))"

text \<open>A worker has returned when nothing is left for it to do.\<close>

definition finished :: "worker \<Rightarrow> bool" where
  "finished w \<longleftrightarrow> due w = Idle \<and> calls w = [] \<and> entries w = []"

text \<open>A worker that takes every step until it has returned.\<close>

fun rank :: "pending \<Rightarrow> nat" where
  "rank Idle = 0"
| "rank (Say line) = 1"
| "rank Tell = 2"
| "rank Check = 3"
| "rank Count = 4"

function finish :: "order \<Rightarrow> worker \<Rightarrow> state \<Rightarrow> worker \<times> state" where
  "finish ord w s =
     (if finished w then (w, s)
      else case wstep ord w s of (w', s') \<Rightarrow> finish ord w' s')"
  by pat_completeness auto

termination
proof (relation "measures [\<lambda>(ord, w, s). length (entries w),
    \<lambda>(ord, w, s). 5 * length (calls w) + rank (due w)]", goal_cases)
  case 1
  show ?case by simp
next
  case 2
  then show ?case
    by (auto simp: wstep_def finished_def
        split: pending.splits option.splits list.splits ending.splits prod.splits if_splits)
qed

text \<open>
  The worker that the loop starts for a directory (lines 73 to 83), and the step of the
  loop itself (lines 62 to 72). The loop waits at line 72 while \<^verbatim>\<open>MAXPROCS\<close> workers
  have not returned.
\<close>

definition MAXPROCS :: nat where
  "MAXPROCS = 12"

definition starting :: "string \<Rightarrow> DirEntry list \<Rightarrow> worker" where
  "starting path files =
     \<lparr>dirPath = path, entries = files, fileName = [], calls = [], atEnd = EOF, due = Idle,
      xRecord = []\<rparr>"

definition mstep ::
  "RootEntry list \<times> worker list \<Rightarrow> state \<Rightarrow> (RootEntry list \<times> worker list) \<times> state"
where
  "mstep p s =
     (case fst p of
        [] \<Rightarrow> (p, s)
      | zipper # reader \<Rightarrow>
          if \<not> Match (EntryName zipper) then
            (case ReadDir zipper of
               None \<Rightarrow>
                 ((reader, snd p),
                  s\<lparr>logged := logged s @ [ErrorReadingDirectory (pathway, EntryName zipper)]\<rparr>)
             | Some files \<Rightarrow>
                 if length (filter (\<lambda>w. \<not> finished w) (snd p)) < MAXPROCS
                 then ((reader, snd p @ [starting (Join pathway (EntryName zipper)) files]), s)
                 else (p, s))
          else ((reader, snd p), s))"

text \<open>
  A schedule is a list of numbers: \<open>0\<close> lets the loop take a step and \<open>i + 1\<close> the
  \<open>i\<close>-th worker started, if there is one.
\<close>

fun run ::
  "order \<Rightarrow> nat list \<Rightarrow> RootEntry list \<times> worker list \<Rightarrow> state \<Rightarrow>
   (RootEntry list \<times> worker list) \<times> state"
where
  "run ord [] p s = (p, s)"
| "run ord (0 # schedule) p s = (case mstep p s of (p', s') \<Rightarrow> run ord schedule p' s')"
| "run ord (Suc i # schedule) p s =
     (if i < length (snd p)
      then case wstep ord (snd p ! i) s of
             (w', s') \<Rightarrow> run ord schedule (fst p, (snd p)[i := w']) s'
      else run ord schedule p s)"

text \<open>
  When the schedule is used up, the run is brought to its end: the workers started run to
  their end one after the other, and the loop goes on, each worker it starts running to
  its end before the next entry is looked at. \<^verbatim>\<open>wg.Wait\<close> (line 91) returns when the
  loop has ended and every worker has returned.
\<close>

fun Wait :: "order \<Rightarrow> worker list \<Rightarrow> state \<Rightarrow> state" where
  "Wait ord [] s = s"
| "Wait ord (w # ws) s = Wait ord ws (snd (finish ord w s))"

fun alone :: "order \<Rightarrow> RootEntry list \<Rightarrow> state \<Rightarrow> state" where
  "alone ord [] s = s"
| "alone ord (zipper # reader) s =
     (if \<not> Match (EntryName zipper) then
        (case ReadDir zipper of
           None \<Rightarrow>
             alone ord reader
               (s\<lparr>logged := logged s @ [ErrorReadingDirectory (pathway, EntryName zipper)]\<rparr>)
         | Some files \<Rightarrow>
             alone ord reader
               (snd (finish ord (starting (Join pathway (EntryName zipper)) files) s)))
      else alone ord reader s)"

definition workers :: "order \<Rightarrow> nat list \<Rightarrow> RootEntry list \<Rightarrow> state \<Rightarrow> state" where
  "workers ord schedule reader s =
     (case run ord schedule (reader, []) s of
        ((reader', ws), s') \<Rightarrow> alone ord reader' (Wait ord ws s'))"

text \<open>
  \<^verbatim>\<open>ParseXMLs\<close> (lines 32 to 98): the error returned, the rows of the file left behind
  and the log.
\<close>

definition ParseXMLs ::
  "order \<Rightarrow> nat list \<Rightarrow> filesystem \<Rightarrow> error option \<times> string list list \<times> logline list"
where
  "ParseXMLs ord schedule fs =
     (if \<not> Create fs then (Some CreateFailed, [], [])
      else
        let w0 = \<lparr>sheet = [], buffered = [], room = Capacity fs, failed = False\<rparr>;
            (ok, w1) = Write header w0
        in if \<not> ok then (Some HeaderWriteFailed, sheet w1, [])
           else
             let w2 = Flush w1
             in if Error w2 then (Some HeaderFlushFailed, sheet w2, [])
                else case Root fs of
                       None \<Rightarrow> (Some ReadDirFailed, sheet w2, [])
                     | Some reader \<Rightarrow>
                         let s = workers ord schedule reader
                                   \<lparr>Record = [], Writer = w2, myInt = 0, logged = [],
                                      ranges = 0\<rparr>;
                             w3 = Flush (Writer s)
                         in if Error w3 then (Some FinalFlushFailed, sheet w3, logged s)
                            else (None, sheet w3, logged s))"

section \<open>Orders, sinks and documents used below\<close>

text \<open>
  Two iteration orders: the entries as they were inserted, and the same round begun at the
  second entry.
\<close>

definition listed :: order where
  "listed n m = m"

definition rotated :: order where
  "rotated n m = rotate1 m"

text \<open>
  Between two rows nothing is left in the buffer of a sink that has not failed: every
  \<^verbatim>\<open>Write\<close> of the program is followed by a \<^verbatim>\<open>Flush\<close>.
\<close>

definition settled :: "writer \<Rightarrow> bool" where
  "settled w \<longleftrightarrow> failed w \<or> buffered w = []"

text \<open>A worker's state at its start, with a sink that accepts \<open>c\<close> rows.\<close>

definition fresh :: "nat \<Rightarrow> state" where
  "fresh c =
     \<lparr>Record = [], Writer = \<lparr>sheet = [], buffered = [], room = c, failed = False\<rparr>,
      myInt = 0, logged = [], ranges = 0\<rparr>"

text \<open>
  The tokens of
  \<^verbatim>\<open><Return><EIN>12-3456789</EIN><Filer><Name>ACME</Name></Filer></Return>\<close>.
\<close>

definition worked :: "token list" where
  "worked =
     [StartElement ''Return'',
        StartElement ''EIN'', CharData ''12-3456789'', EndElement ''EIN'',
        StartElement ''Filer'',
          StartElement ''Name'', CharData ''ACME'', EndElement ''Name'',
        EndElement ''Filer'',
      EndElement ''Return'']"

definition worked_record :: record_map where
  "worked_record =
     [(''.Return.EIN'', [''12-3456789'']), ([], []), (''.Return.Filer.Name'', [''ACME''])]"

definition worked_row :: "string list" where
  "worked_row = [''12-3456789'', [], ''ACME'']"

text \<open>A tree with one shard that holds the document above, and room for ten rows.\<close>

definition worked_tree :: filesystem where
  "worked_tree =
     \<lparr>Create = True, Capacity = 10,
      Root = Some [\<lparr>EntryName = ''2023'',
                     ReadDir = Some [\<lparr>Name = ''return.xml'', IsDir = False,
                                       Open = Some (worked, EOF)\<rparr>]\<rparr>]\<rparr>"

text \<open>The state in which the workers start: the header is in the file.\<close>

definition started :: "nat \<Rightarrow> state" where
  "started c =
     \<lparr>Record = [],
      Writer = \<lparr>sheet = [header], buffered = [], room = c - 1, failed = False\<rparr>,
      myInt = 0, logged = [], ranges = 0\<rparr>"

text \<open>
  What the decoder guarantees of the tokens it delivers: an end element closes an element
  that is open. \<open>nesting depth ts\<close> holds when \<open>ts\<close>, read with \<open>depth\<close> elements open,
  never closes more elements than are open. Tokens that do not nest so are a syntax error
  of the decoder, not tokens.
\<close>

fun nesting :: "nat \<Rightarrow> token list \<Rightarrow> bool" where
  "nesting depth [] = True"
| "nesting depth (StartElement n # ts) = nesting (Suc depth) ts"
| "nesting depth (EndElement n # ts) = (0 < depth \<and> nesting (depth - 1) ts)"
| "nesting depth (tok # ts) = nesting depth ts"

text \<open>The log holds a line for a document whose row could not be written or flushed.\<close>

definition sink_error_logged :: "logline list \<Rightarrow> bool" where
  "sink_error_logged l \<longleftrightarrow>
     (\<exists>p. ErrorParsingXML p WriteRowFailed \<in> set l \<or> ErrorParsingXML p FlushRowFailed \<in> set l)"

text \<open>
  Two small documents, \<^verbatim>\<open><a>x</a>\<close> and \<^verbatim>\<open><b>y</b>\<close>, a document that breaks off
  inside a tag, \<^verbatim>\<open><a>x<b\<close>, and a shard directory that holds two documents.
\<close>

definition doc_a :: decoder where
  "doc_a = ([StartElement ''a'', CharData ''x'', EndElement ''a''], EOF)"

definition doc_b :: decoder where
  "doc_b = ([StartElement ''b'', CharData ''y'', EndElement ''b''], EOF)"

definition cut_short :: decoder where
  "cut_short = ([StartElement ''a'', CharData ''x''], SyntaxError)"

definition shard :: "decoder \<Rightarrow> decoder \<Rightarrow> DirEntry list" where
  "shard d1 d2 =
     [\<lparr>Name = ''1.xml'', IsDir = False, Open = Some d1\<rparr>,
      \<lparr>Name = ''2.xml'', IsDir = False, Open = Some d2\<rparr>]"

definition small_tree :: filesystem where
  "small_tree =
     \<lparr>Create = True, Capacity = 1,
      Root = Some [\<lparr>EntryName = ''2023'', ReadDir = Some (shard doc_a doc_b)\<rparr>]\<rparr>"

text \<open>
  An element that closes without text, laid out on lines of its own:
  \<^verbatim>\<open><Return>\<close>, line feed and two spaces, \<^verbatim>\<open><Filer></Filer>\<close>, line feed,
  \<^verbatim>\<open></Return>\<close>.
\<close>

definition spaced :: "token list" where
  "spaced =
     [StartElement ''Return'', CharData [CHR 0x0A, CHR '' '', CHR '' ''],
        StartElement ''Filer'', EndElement ''Filer'', CharData [CHR 0x0A],
      EndElement ''Return'']"

text \<open>
  A repeated group:
  \<^verbatim>\<open><Return><Officer><Name>ANN</Name></Officer><Officer><Name>BOB</Name></Officer></Return>\<close>.
\<close>

definition officers :: "token list" where
  "officers =
     [StartElement ''Return'',
        StartElement ''Officer'',
          StartElement ''Name'', CharData ''ANN'', EndElement ''Name'',
        EndElement ''Officer'',
        StartElement ''Officer'',
          StartElement ''Name'', CharData ''BOB'', EndElement ''Name'',
        EndElement ''Officer'',
      EndElement ''Return'']"


text \<open>
  Two shards with one document each, \<^verbatim>\<open>2022/1.xml\<close> with \<^verbatim>\<open><a>x</a>\<close> and
  \<^verbatim>\<open>2023/2.xml\<close> with \<^verbatim>\<open><b>y</b>\<close>, and room for ten rows.
\<close>

definition two_shards :: filesystem where
  "two_shards =
     \<lparr>Create = True, Capacity = 10,
      Root = Some [\<lparr>EntryName = ''2022'',
                     ReadDir = Some [\<lparr>Name = ''1.xml'', IsDir = False, Open = Some doc_a\<rparr>]\<rparr>,
                   \<lparr>EntryName = ''2023'',
                     ReadDir = Some [\<lparr>Name = ''2.xml'', IsDir = False, Open = Some doc_b\<rparr>]\<rparr>]\<rparr>"

section \<open>What a run has still to write\<close>



text \<open>
  Rows are compared up to the order of their cells: a row counts as the multiset of its
  cells, and the rows of a file as the multiset of these. \<open>cells m\<close> is the row of the
  record \<open>m\<close>, and \<open>written s\<close> the rows in the file.
\<close>

definition cells :: "record_map \<Rightarrow> string multiset" where
  "cells m = image_mset (\<lambda>(k, data). cell data) (mset m)"

definition rows_of :: "string list list \<Rightarrow> string multiset multiset" where
  "rows_of rows = image_mset mset (mset rows)"

definition written :: "state \<Rightarrow> string multiset multiset" where
  "written s = rows_of (sheet (Writer s))"

text \<open>
  The rows that the entries of a directory give a worker whose record is \<open>m\<close>, if the sink
  takes them all: a document that ends at \<^verbatim>\<open>io.EOF\<close> gives one row of the record for
  every call it leaves open, and the next document goes on from that record. \<open>owed w\<close>
  are the rows the worker \<open>w\<close> has still to write, and \<open>demand reader\<close> the rows of the
  workers that the loop has still to start.
\<close>

fun later :: "DirEntry list \<Rightarrow> record_map \<Rightarrow> string multiset multiset" where
  "later [] m = {#}"
| "later (file # files) m =
     (if IsDir file then later files m
      else case Open file of
             None \<Rightarrow> later files m
           | Some decoder \<Rightarrow>
               (case advance [([], [], [])] (fst decoder) m of
                  (cs, ts, m') \<Rightarrow>
                    (if snd decoder = EOF then replicate_mset (length cs) (cells m') else {#}) +
                    later files m'))"

definition owed :: "worker \<Rightarrow> string multiset multiset" where
  "owed w =
     (if atEnd w = EOF then replicate_mset (length (calls w)) (cells (xRecord w)) else {#}) +
     later (entries w) (xRecord w)"

fun demand :: "RootEntry list \<Rightarrow> string multiset multiset" where
  "demand [] = {#}"
| "demand (zipper # reader) =
     (if \<not> Match (EntryName zipper) then
        (case ReadDir zipper of
           None \<Rightarrow> demand reader
         | Some files \<Rightarrow> later files [] + demand reader)
      else demand reader)"

definition unwritten :: "RootEntry list \<times> worker list \<Rightarrow> string multiset multiset" where
  "unwritten p = sum_list (map owed (snd p)) + demand (fst p)"

text \<open>
  \<open>emits ord k s\<close> is what \<open>k\<close> open calls of \<^verbatim>\<open>flatten\<close> do at \<^verbatim>\<open>io.EOF\<close> when no
  other worker runs: each writes a row until one of them fails.
\<close>

fun emits :: "order \<Rightarrow> nat \<Rightarrow> state \<Rightarrow> error option \<times> state" where
  "emits ord 0 s = (None, s)"
| "emits ord (Suc k) s =
     (case emitRow ord s of
        (None, s') \<Rightarrow> emits ord k s'
      | (Some err, s') \<Rightarrow> (Some err, s'))"

section \<open>Cells and rows\<close>

lemmas run_simps =
  flatten_def emitRow_def Write_def Flush_def Error_def countProcessed_def onCharData_def
  assign_def index_def TrimSpace_def leadingSpace_def trailingSpace_def whiteSpace_def
  buildRow_def cell_def Let_def listed_def rotated_def

lemma visits_all_listed: "visits_all listed"
  by (simp add: visits_all_def listed_def)

lemma mset_rotate1: "mset (rotate1 m) = mset m"
  by (cases m) simp_all

lemma visits_all_rotated: "visits_all rotated"
  by (simp add: visits_all_def rotated_def mset_rotate1)

lemma fold_builder: "fold (\<lambda>b builder. builder @ b) data acc = acc @ concat data"
  by (induction data arbitrary: acc) simp_all

lemma cell_many: "1 < length data \<Longrightarrow> cell data = concat data"
  by (simp add: cell_def fold_builder)

lemma fold_row:
  "fold (\<lambda>(k, data) row. row @ [cell data]) visited acc =
   acc @ map (\<lambda>(k, data). cell data) visited"
  by (induction visited arbitrary: acc) (simp_all add: case_prod_beta)

lemma buildRow_map: "buildRow visited = map (\<lambda>(k, data). cell data) visited"
  by (simp add: buildRow_def fold_row)

lemma length_buildRow: "visits_all ord \<Longrightarrow> length (buildRow (ord n m)) = length m"
  by (metis buildRow_map length_map size_mset visits_all_def)

lemma mset_buildRow:
  "visits_all ord \<Longrightarrow>
   mset (buildRow (ord n m)) = image_mset (\<lambda>(k, data). cell data) (mset m)"
  by (metis buildRow_map mset_map visits_all_def)

section \<open>Writing a row\<close>

lemma emitRow_Record: "emitRow ord s = (r, s') \<Longrightarrow> Record s' = Record s"
  by (auto simp add: emitRow_def Let_def Write_def countProcessed_def split: prod.splits if_splits)

lemma emitRow_cases:
  assumes "emitRow ord s = (r, s')" "settled (Writer s)"
  shows "(r = None \<and> \<not> failed (Writer s) \<and> \<not> failed (Writer s') \<and> buffered (Writer s') = []
           \<and> sheet (Writer s') = sheet (Writer s) @ [buildRow (ord (ranges s) (Record s))])
       \<or> (r \<in> {Some WriteRowFailed, Some FlushRowFailed} \<and> failed (Writer s')
           \<and> sheet (Writer s') = sheet (Writer s))"
  using assms
  by (auto simp add: emitRow_def Let_def Write_def Flush_def Error_def countProcessed_def settled_def split: prod.splits if_splits)

lemma emitRow_rows:
  assumes "emitRow ord s = (r, s')" "settled (Writer s)"
  shows "settled (Writer s') \<and>
    (\<exists>rows. sheet (Writer s') = sheet (Writer s) @ rows \<and>
       (\<forall>row\<in>set rows. \<exists>n. row = buildRow (ord n (Record s'))))"
proof -
  from assms(1) have rec: "Record s' = Record s"
    by (rule emitRow_Record)
  from emitRow_cases [OF assms]
  have "sheet (Writer s') = sheet (Writer s) @ [buildRow (ord (ranges s) (Record s'))]
      \<or> sheet (Writer s') = sheet (Writer s) @ []"
    and "settled (Writer s')"
    by (auto simp: rec settled_def)
  then show ?thesis by fastforce
qed

lemma emitRow_failed:
  "emitRow ord s = (r, s') \<Longrightarrow> failed (Writer s) \<Longrightarrow> 
   failed (Writer s') \<and> sheet (Writer s') = sheet (Writer s) \<and> r \<noteq> None"
  by (auto simp add: emitRow_def Let_def Write_def Flush_def Error_def countProcessed_def split: prod.splits if_splits)


lemma emitRow_logged:
  "emitRow ord s = (r, s') \<Longrightarrow>
   (ErrorParsingXML p e \<in> set (logged s')) = (ErrorParsingXML p e \<in> set (logged s))"
  by (auto simp add: emitRow_def Let_def Write_def Flush_def Error_def countProcessed_def
      split: prod.splits if_splits)

section \<open>Character data\<close>

lemma onCharData_distinct:
  "distinct (map fst m) \<Longrightarrow> distinct (map fst (onCharData p l t m))"
  by (simp add: onCharData_def assign_def Let_def distinct_update)

lemma onCharData_grows:
  "map_of m k = Some data \<Longrightarrow> \<exists>more. map_of (onCharData p l t m) k = Some (data @ more)"
  by (auto simp add: onCharData_def assign_def index_def Let_def update_conv')

lemma onCharData_registers: "map_of (onCharData p l t m) l \<noteq> None"
  by (auto simp add: onCharData_def assign_def Let_def update_conv')

lemma onCharData_absent:
  "map_of m l = None \<Longrightarrow>
   map_of (onCharData p l t m) l = Some (if l = p \<and> TrimSpace t \<noteq> [] then [TrimSpace t] else [])"
  by (auto simp add: onCharData_def assign_def index_def Let_def update_conv')

lemma onCharData_empty:
  "map_of (onCharData p l t m) k = Some [] \<Longrightarrow> map_of m k = Some [] \<or> k = l"
  by (auto simp add: onCharData_def assign_def index_def Let_def update_conv' split: if_splits)

lemma onCharData_text:
  "map_of (onCharData p l t m) k = (if k = p \<and> TrimSpace t \<noteq> [] then Some (index m p @ [TrimSpace t])
     else if k = l \<and> map_of m l = None then Some [] else map_of m k)"
  by (auto simp add: onCharData_def assign_def index_def Let_def update_conv' split: if_splits)

section \<open>Induction over a run of the flattener\<close>

text \<open>
  One case per way through the loop body, each with the result of the run that follows, so
  that a property of the results is proved without unfolding the recursion again.
\<close>

lemma flatten_loop_Start:
  "flatten_loop ord element lastTag prefix (StartElement n # ts, fin) s = (r, d', s') \<Longrightarrow>
   (\<exists>r1 d1 s1. flatten_loop ord n [] (prefix @ ''.'' @ n) (ts, fin) s = (r1, d1, s1) \<and>
      (if r1 \<noteq> None then (r, d', s') = (r1, d1, s1)
       else flatten_loop ord n n prefix d1 s1 = (r, d', s')))"
  by (cases "flatten_loop ord n [] (prefix @ ''.'' @ n) (ts, fin) s") (auto simp: Let_def)

lemma flatten_loop_cases [consumes 1, case_names EOF SyntaxError Failed Child CharData Closed Other]:
  assumes run: "flatten_loop ord el lt pre d s = (r, d', s')"
    and eof: "\<And>ord el lt pre s r s'. emitRow ord s = (r, s') \<Longrightarrow> P ord el lt pre ([], EOF) s r ([], EOF) s'"
    and err: "\<And>ord el lt pre s. P ord el lt pre ([], SyntaxError) s (Some XMLParsingError) ([], SyntaxError) s"
    and failed: "\<And>ord el lt pre n ts fin s e d1 s1.
        flatten_loop ord n [] (pre @ ''.'' @ n) (ts, fin) s = (Some e, d1, s1) \<Longrightarrow>
        P ord n [] (pre @ ''.'' @ n) (ts, fin) s (Some e) d1 s1 \<Longrightarrow>
        P ord el lt pre (StartElement n # ts, fin) s (Some e) d1 s1"
    and child: "\<And>ord el lt pre n ts fin s d1 s1 r d' s'.
        flatten_loop ord n [] (pre @ ''.'' @ n) (ts, fin) s = (None, d1, s1) \<Longrightarrow>
        P ord n [] (pre @ ''.'' @ n) (ts, fin) s None d1 s1 \<Longrightarrow>
        flatten_loop ord n n pre d1 s1 = (r, d', s') \<Longrightarrow>
        P ord n n pre d1 s1 r d' s' \<Longrightarrow>
        P ord el lt pre (StartElement n # ts, fin) s r d' s'"
    and chardata: "\<And>ord el lt pre t ts fin s r d' s'.
        flatten_loop ord el lt pre (ts, fin) (s\<lparr>Record := onCharData pre lt t (Record s)\<rparr>) = (r, d', s') \<Longrightarrow>
        P ord el lt pre (ts, fin) (s\<lparr>Record := onCharData pre lt t (Record s)\<rparr>) r d' s' \<Longrightarrow>
        P ord el lt pre (CharData t # ts, fin) s r d' s'"
    and closed: "\<And>ord el lt pre ts fin s. P ord el lt pre (EndElement el # ts, fin) s None (ts, fin) s"
    and other: "\<And>ord el lt pre tok ts fin s r d' s'.
        \<forall>n. tok \<noteq> StartElement n \<Longrightarrow> \<forall>t. tok \<noteq> CharData t \<Longrightarrow> tok \<noteq> EndElement el \<Longrightarrow>
        flatten_loop ord el lt pre (ts, fin) s = (r, d', s') \<Longrightarrow>
        P ord el lt pre (ts, fin) s r d' s' \<Longrightarrow>
        P ord el lt pre (tok # ts, fin) s r d' s'"
  shows "P ord el lt pre d s r d' s'"
  using run
proof (induction ord el lt pre d s arbitrary: r d' s' rule: flatten_loop.induct)
  case (1 ord element lastTag prefix s)
  then show ?case by (auto split: prod.splits intro: eof)
next
  case (2 ord element lastTag prefix s)
  then show ?case by (auto intro: err)
next
  case (3 ord element lastTag prefix n ts fin s)
  from flatten_loop_Start [OF "3.prems"] obtain r1 d1 s1 where
    inner: "flatten_loop ord n [] (prefix @ ''.'' @ n) (ts, fin) s = (r1, d1, s1)" and
    rest: "if r1 \<noteq> None then (r, d', s') = (r1, d1, s1)
       else flatten_loop ord n n prefix d1 s1 = (r, d', s')" by blast
  note ih1 = "3.IH"(1) [OF inner]
  show ?case
  proof (cases r1)
    case (Some e)
    with rest inner ih1 show ?thesis by (auto intro: failed)
  next
    case None
    with rest have outer: "flatten_loop ord n n prefix d1 s1 = (r, d', s')" by simp
    have "P ord n n prefix d1 s1 r d' s'"
      using "3.IH"(2) [of "(r1, d1, s1)" r d' s'] inner None outer by simp
    with inner ih1 outer None show ?thesis by (auto intro: child)
  qed
next
  case (4 ord element lastTag prefix t ts fin s)
  then show ?case by (auto intro: chardata)
next
  case (5 ord element lastTag prefix n ts fin s)
  then show ?case by (auto intro: closed other split: if_splits)
next
  case (6 ord element lastTag prefix c ts fin s)
  then show ?case by (auto intro: other)
next
  case (7 ord element lastTag prefix c i ts fin s)
  then show ?case by (auto intro: other)
next
  case (8 ord element lastTag prefix c ts fin s)
  then show ?case by (auto intro: other)
qed

section \<open>What a run of the flattener keeps\<close>

lemma flatten_loop_exhausted:
  "flatten_loop ord el lt pre ([], fin) s = (r, d', s') \<Longrightarrow> Record s' = Record s \<and> d' = ([], fin)"
  by (cases fin) (auto split: prod.splits dest: emitRow_Record)

lemma flatten_loop_rows:
  "flatten_loop ord el lt pre d s = (r, d', s') \<Longrightarrow> settled (Writer s) \<Longrightarrow>
   settled (Writer s') \<and>
   (\<exists>rows. sheet (Writer s') = sheet (Writer s) @ rows \<and>
       (\<forall>row\<in>set rows. \<exists>n. row = buildRow (ord n (Record s')))) \<and>
   (sheet (Writer s') \<noteq> sheet (Writer s) \<longrightarrow> fst d' = [])"
proof (induction rule: flatten_loop_cases)
  case (EOF ord el lt pre s r s')
  then show ?case using emitRow_rows [OF EOF.hyps EOF.prems] by simp
next
  case (Child ord el lt pre n ts fin s d1 s1 r d' s')
  from Child.IH(1) Child.prems obtain rows1 where s1: "settled (Writer s1)" 
    and rows1: "sheet (Writer s1) = sheet (Writer s) @ rows1" "\<forall>row\<in>set rows1. \<exists>n. row = buildRow (ord n (Record s1))"
    and end1: "sheet (Writer s1) \<noteq> sheet (Writer s) \<longrightarrow> fst d1 = []" by blast
  from Child.IH(2) s1 obtain rows2 where s': "settled (Writer s')" 
    and rows2: "sheet (Writer s') = sheet (Writer s1) @ rows2" "\<forall>row\<in>set rows2. \<exists>n. row = buildRow (ord n (Record s'))"
    and end2: "sheet (Writer s') \<noteq> sheet (Writer s1) \<longrightarrow> fst d' = []" by blast
  show ?case
  proof (cases "rows1 = []")
    case True
    with s' rows1 rows2 end2 show ?thesis by simp
  next
    case False
    with end1 rows1 have "fst d1 = []" by simp
    then obtain fin1 where d1: "d1 = ([], fin1)" by (cases d1) simp
    from Child.hyps(2) have same: "Record s' = Record s1" "d' = d1"
      using flatten_loop_exhausted [of ord n n pre fin1 s1 r d' s'] by (simp_all add: d1)
    have "sheet (Writer s') = sheet (Writer s) @ (rows1 @ rows2)"
      using rows1 rows2 by simp
    moreover have "\<forall>row\<in>set (rows1 @ rows2). \<exists>n. row = buildRow (ord n (Record s'))"
      using rows1 rows2 same by auto
    moreover have "fst d' = []"
      using same d1 by simp
    ultimately show ?thesis using s' by blast
  qed
qed simp_all

lemma flatten_loop_ending:
  "flatten_loop ord el lt pre d s = (r, d', s') \<Longrightarrow> snd d' = snd d"
  by (induction rule: flatten_loop_cases) simp_all

lemma flatten_loop_rest:
  "flatten_loop ord el lt pre d s = (r, d', s') \<Longrightarrow> \<exists>read. fst d = read @ fst d'"
proof (induction rule: flatten_loop_cases)
  case (Child ord el lt pre n ts fin s d1 s1 r d' s')
  then obtain read1 read2 where "ts = read1 @ fst d1" "fst d1 = read2 @ fst d'" by auto
  then have "StartElement n # ts = (StartElement n # read1 @ read2) @ fst d'" by simp
  then show ?case by (metis fst_conv)
next
  case (Failed ord el lt pre n ts fin s e d1 s1)
  then show ?case by (metis append_Cons fst_conv)
next
  case (CharData ord el lt pre t ts fin s r d' s')
  then show ?case by (metis append_Cons fst_conv)
next
  case (Closed ord el lt pre ts fin s)
  show ?case by (metis append_Cons append_Nil fst_conv)
next
  case (Other ord el lt pre tok ts fin s r d' s')
  then show ?case by (metis append_Cons fst_conv)
qed simp_all

lemma flatten_loop_distinct:
  "flatten_loop ord el lt pre d s = (r, d', s') \<Longrightarrow> distinct (map fst (Record s)) \<Longrightarrow>
   distinct (map fst (Record s'))"
  by (induction rule: flatten_loop_cases) (simp_all add: emitRow_Record onCharData_distinct)

lemma flatten_loop_grows:
  "flatten_loop ord el lt pre d s = (r, d', s') \<Longrightarrow> map_of (Record s) k = Some data \<Longrightarrow>
   \<exists>more. map_of (Record s') k = Some (data @ more)"
proof (induction arbitrary: data rule: flatten_loop_cases)
  case (EOF ord el lt pre s r s')
  then show ?case by (simp add: emitRow_Record)
next
  case (Child ord el lt pre n ts fin s d1 s1 r d' s')
  from Child.IH(1) [OF Child.prems] obtain more1 where "map_of (Record s1) k = Some (data @ more1)" by blast
  from Child.IH(2) [OF this] show ?case by auto
next
  case (CharData ord el lt pre t ts fin s r d' s')
  from onCharData_grows [OF CharData.prems] obtain more1 where
    "map_of (onCharData pre lt t (Record s)) k = Some (data @ more1)" by blast
  with CharData.IH [of "data @ more1"] show ?case by auto
qed simp_all

lemma flatten_loop_empty:
  "flatten_loop ord el lt pre d s = (r, d', s') \<Longrightarrow> map_of (Record s') k = Some [] \<Longrightarrow>
   map_of (Record s) k = Some [] \<or> k = lt \<or> k = [] \<or> StartElement k \<in> set (fst d)"
proof (induction rule: flatten_loop_cases)
  case (EOF ord el lt pre s r s')
  then show ?case by (simp add: emitRow_Record)
next
  case (Child ord el lt pre n ts fin s d1 s1 r d' s')
  from flatten_loop_rest [OF Child.hyps(1)] have "set (fst d1) \<subseteq> set ts" by auto
  with Child.IH Child.prems show ?case by auto
next
  case (CharData ord el lt pre t ts fin s r d' s')
  then show ?case by (auto dest: onCharData_empty)
qed auto

lemma flatten_loop_failed:
  "flatten_loop ord el lt pre d s = (r, d', s') \<Longrightarrow> failed (Writer s) \<Longrightarrow>
   failed (Writer s') \<and> sheet (Writer s') = sheet (Writer s)"
  by (induction rule: flatten_loop_cases) (simp_all add: emitRow_failed)



lemma flatten_loop_nesting:
  "flatten_loop ord el lt pre d s = (r, d', s') \<Longrightarrow> nesting depth (fst d) \<Longrightarrow>
   (r = None \<and> (\<exists>depth'<depth. nesting depth' (fst d'))) \<or>
   (fst d' = [] \<and> (snd d = SyntaxError \<longrightarrow> r = Some XMLParsingError))"
proof (induction arbitrary: depth rule: flatten_loop_cases)
  case (Failed ord el lt pre n ts fin s e d1 s1)
  from Failed.IH [of "Suc depth"] Failed.prems show ?case by simp
next
  case (Child ord el lt pre n ts fin s d1 s1 r d' s')
  from Child.hyps(1) have fin1: "snd d1 = fin" using flatten_loop_ending by fastforce
  from Child.IH(1) [of "Suc depth"] Child.prems
  consider depth' where "depth' < Suc depth" "nesting depth' (fst d1)" | "fst d1 = []"
    by auto
  then show ?case
  proof cases
    case 1
    from Child.IH(2) [OF 1(2)]
    consider depth'' where "r = None" "depth'' < depth'" "nesting depth'' (fst d')"
      | "fst d' = []" "snd d1 = SyntaxError \<longrightarrow> r = Some XMLParsingError"
      by auto
    then show ?thesis
    proof cases
      case 1
      with \<open>depth' < Suc depth\<close> have "depth'' < depth" by simp
      with 1 show ?thesis by auto
    next
      case 2
      with fin1 show ?thesis by simp
    qed
  next
    case 2
    then have "nesting 0 (fst d1)" by simp
    from Child.IH(2) [OF this] fin1 show ?thesis by auto
  qed
next
  case (Closed ord el lt pre ts fin s)
  then show ?case by auto
next
  case (Other ord el lt pre tok ts fin s r d' s')
  show ?case
  proof (cases tok)
    case (EndElement n)
    with Other.prems have "0 < depth" "nesting (depth - 1) ts" by simp_all
    from Other.IH [of "depth - 1"] this
    consider depth' where "r = None" "depth' < depth - 1" "nesting depth' (fst d')"
      | "fst d' = []" "fin = SyntaxError \<longrightarrow> r = Some XMLParsingError"
      by auto
    then show ?thesis
    proof cases
      case 1
      then have "depth' < depth" by simp
      with 1 show ?thesis by auto
    next
      case 2
      then show ?thesis by simp
    qed
  next
    case (StartElement n) with Other.hyps show ?thesis by simp
  next
    case (CharData t) with Other.hyps show ?thesis by simp
  qed (use Other in auto)
qed simp_all

lemma flatten_reads_all:
  assumes "flatten ord [] (ts, fin) [] s = (r, d', s')" "nesting 0 ts"
  shows "d' = ([], fin) \<and> (fin = SyntaxError \<longrightarrow> r = Some XMLParsingError)"
  using flatten_loop_nesting [of ord "[]" "[]" "[]" "(ts, fin)" s r d' s' 0]
    flatten_loop_ending [of ord "[]" "[]" "[]" "(ts, fin)" s r d' s'] assms
  by (cases d') (simp add: flatten_def)

lemma flatten_loop_keys:
  "flatten_loop ord el lt pre d s = (r, d', s') \<Longrightarrow> map_of (Record s) k \<noteq> None \<Longrightarrow>
   map_of (Record s') k \<noteq> None"
  using flatten_loop_grows by fastforce

lemma flatten_loop_bare:
  "flatten_loop ord el lt pre d s = (r, d', s') \<Longrightarrow>
   lt = [] \<or> StartElement lt \<in> set doc \<Longrightarrow> set (fst d) \<subseteq> set doc \<Longrightarrow>
   (\<exists>k. map_of (Record s') k \<noteq> None \<and> (k = [] \<or> StartElement k \<in> set doc)) \<or>
   (\<exists>read. fst d = read @ fst d' \<and> (\<forall>t. CharData t \<notin> set read))"
proof (induction rule: flatten_loop_cases)
  case (Failed ord el lt pre n ts fin s e d1 s1)
  from Failed.prems have "set (fst (ts, fin)) \<subseteq> set doc" by simp
  from Failed.IH [OF _ this]
  consider k where "map_of (Record s1) k \<noteq> None" "k = [] \<or> StartElement k \<in> set doc"
    | read where "ts = read @ fst d1" "\<forall>t. CharData t \<notin> set read"
    by auto
  then show ?case
  proof cases
    case 1
    then show ?thesis by blast
  next
    case 2
    then have "fst (StartElement n # ts, fin) = (StartElement n # read) @ fst d1" 
      "\<forall>t. CharData t \<notin> set (StartElement n # read)" by simp_all
    then show ?thesis by blast
  qed
next
  case (Child ord el lt pre n ts fin s d1 s1 r d' s')
  from Child.prems have sub: "set (fst (ts, fin)) \<subseteq> set doc" and n: "StartElement n \<in> set doc" by simp_all
  from flatten_loop_rest [OF Child.hyps(1)] sub have sub1: "set (fst d1) \<subseteq> set doc" by auto
  from Child.IH(1) [OF _ sub]
  consider k where "map_of (Record s1) k \<noteq> None" "k = [] \<or> StartElement k \<in> set doc"
    | read where "ts = read @ fst d1" "\<forall>t. CharData t \<notin> set read"
    by auto
  then show ?case
  proof cases
    case 1
    with flatten_loop_keys [OF Child.hyps(2)] show ?thesis by blast
  next
    case 2
    from Child.IH(2) [OF _ sub1] n
    consider k where "map_of (Record s') k \<noteq> None" "k = [] \<or> StartElement k \<in> set doc"
      | read' where "fst d1 = read' @ fst d'" "\<forall>t. CharData t \<notin> set read'"
      by auto
    then show ?thesis
    proof cases
      case 1
      then show ?thesis by blast
    next
      case right: 2
      with 2 have "fst (StartElement n # ts, fin) = (StartElement n # read @ read') @ fst d'"
        "\<forall>t. CharData t \<notin> set (StartElement n # read @ read')" by simp_all
      then show ?thesis by blast
    qed
  qed
next
  case (CharData ord el lt pre t ts fin s r d' s')
  have "map_of (Record (s\<lparr>Record := onCharData pre lt t (Record s)\<rparr>)) lt \<noteq> None"
    by (simp add: onCharData_registers)
  from flatten_loop_keys [OF CharData.hyps this] CharData.prems(1) show ?case by blast
next
  case (Closed ord el lt pre ts fin s)
  have "fst (EndElement el # ts, fin) = [EndElement el] @ fst (ts, fin)" 
    "\<forall>t. CharData t \<notin> set [EndElement el]" by simp_all
  then show ?case by blast
next
  case (Other ord el lt pre tok ts fin s r d' s')
  from Other.prems have "set (fst (ts, fin)) \<subseteq> set doc" by simp
  from Other.IH [OF Other.prems(1) this]
  consider k where "map_of (Record s') k \<noteq> None" "k = [] \<or> StartElement k \<in> set doc"
    | read where "ts = read @ fst d'" "\<forall>t. CharData t \<notin> set read"
    by auto
  then show ?case
  proof cases
    case 1
    then show ?thesis by blast
  next
    case 2
    with Other.hyps(2) have "fst (tok # ts, fin) = (tok # read) @ fst d'" 
      "\<forall>t. CharData t \<notin> set (tok # read)" by auto
    then show ?thesis by blast
  qed
qed simp_all

lemma flatten_loop_logged:
  "flatten_loop ord el lt pre d s = (r, d', s') \<Longrightarrow>
   sink_error_logged (logged s') = sink_error_logged (logged s)"
  by (induction rule: flatten_loop_cases) (simp_all add: emitRow_logged sink_error_logged_def)

lemma flatten_loop_kept:
  assumes "flatten_loop ord el lt pre d s = (r, d', s')"
    and "sink_error_logged (logged s) \<longrightarrow> failed (Writer s)"
  shows "sink_error_logged (logged s') \<longrightarrow> failed (Writer s')"
  using assms flatten_loop_logged [OF assms(1)] flatten_loop_failed [OF assms(1)] by simp

section \<open>What a worker and the run keep\<close>

lemma generateRows_None: "fst (generateRows ord root files s) = None"
  by (induction files arbitrary: s) (auto split: option.splits prod.splits)

lemma generateRows_grows:
  "generateRows ord root files s = (r, s') \<Longrightarrow> map_of (Record s) k = Some data \<Longrightarrow>
   \<exists>more. map_of (Record s') k = Some (data @ more)"
proof (induction files arbitrary: s data)
  case Nil
  then show ?case by simp
next
  case (Cons entry files)
  show ?case
  proof (cases "IsDir entry")
    case True
    with Cons show ?thesis by simp
  next
    case False
    show ?thesis
    proof (cases "Open entry")
      case None
      with False Cons.prems Cons.IH [of "s\<lparr>logged := logged s @ [ErrorOpeningFile (root, Name entry)]\<rparr>" data]
      show ?thesis by simp
    next
      case (Some decoder)
      obtain r1 d1 s1 where run: "flatten ord [] decoder [] s = (r1, d1, s1)"
        by (cases "flatten ord [] decoder [] s")
      from flatten_loop_grows [OF run [unfolded flatten_def] Cons.prems(2)] obtain more1 where
        s1: "map_of (Record s1) k = Some (data @ more1)" by blast
      show ?thesis
      proof (cases r1)
        case None
        with False Some run Cons.prems(1) have "generateRows ord root files s1 = (r, s')" by simp
        from Cons.IH [OF this s1] show ?thesis by auto
      next
        case (Some e)
        with False \<open>Open entry = Some decoder\<close> run Cons.prems(1)
        have "generateRows ord root files (s1\<lparr>logged := logged s1 @ [ErrorParsingXML (root, Name entry) e]\<rparr>) = (r, s')"
          by simp
        from Cons.IH [OF this] s1 show ?thesis by auto
      qed
    qed
  qed
qed

section \<open>The runs of the examples\<close>

lemmas example_defs =
  doc_a_def doc_b_def cut_short_def shard_def small_tree_def spaced_def officers_def fresh_def

lemma worked_run:
  "flatten listed [] (worked, EOF) [] (fresh 10) =
     (None, ([], EOF),
      \<lparr>Record = worked_record,
       Writer = \<lparr>sheet = [worked_row, worked_row, worked_row], buffered = [], room = 7,
                  failed = False\<rparr>,
       myInt = 3, logged = [], ranges = 3\<rparr>)"
  by (simp add: worked_def worked_record_def worked_row_def fresh_def run_simps)

lemma worked_run_rotated:
  "flatten rotated [] (worked, EOF) [] (fresh 10) =
     (None, ([], EOF),
      \<lparr>Record = worked_record,
       Writer = \<lparr>sheet = [rotate1 worked_row, rotate1 worked_row, rotate1 worked_row], buffered = [], room = 7,
                  failed = False\<rparr>,
       myInt = 3, logged = [], ranges = 3\<rparr>)"
  by (simp add: worked_def worked_record_def worked_row_def fresh_def run_simps)

lemma spaced_run:
  "flatten listed [] (spaced, EOF) [] (fresh 10) =
     (None, ([], EOF),
      \<lparr>Record = [([], []), (''Filer'', [])],
       Writer = \<lparr>sheet = [[[], []], [[], []]], buffered = [], room = 8, failed = False\<rparr>,
       myInt = 2, logged = [], ranges = 2\<rparr>)"
  by (simp add: example_defs run_simps)

section \<open>Further facts used by the claims\<close>

lemma card_keys: "distinct (map fst m) \<Longrightarrow> card (dom (map_of m)) = length m"
  by (simp add: dom_map_of_conv_image_fst distinct_card flip: set_map)

lemma generateRows_append:
  "generateRows ord root (before @ after) s =
   generateRows ord root after (snd (generateRows ord root before s))"
  by (induction before arbitrary: s) (auto split: option.splits prod.splits)

lemma flatten_loop_Record_end:
  "Record (snd (snd (flatten_loop ord el lt pre ([], fin) s))) = Record s"
  by (cases fin) (auto dest: emitRow_Record split: prod.splits)

lemma flatten_loop_rest_end:
  "fst (snd (flatten_loop ord el lt pre ([], fin) s)) = ([], fin)"
  by (cases fin) (simp_all split: prod.splits)

lemma worked_Record:
  "Record s = [] \<Longrightarrow> Record (snd (snd (flatten ord [] (worked, fin) [] s))) = worked_record"
  by (simp add: flatten_def worked_def worked_record_def Let_def onCharData_def assign_def index_def
      TrimSpace_def leadingSpace_def trailingSpace_def whiteSpace_def
      flatten_loop_Record_end flatten_loop_rest_end)

section \<open>Writing a row under the lock\<close>

lemma emitRow_writeRow:
  "emitRow ord s =
     (case writeRow ord s of
        (None, s') \<Rightarrow> (None, countProcessed s')
      | (Some err, s') \<Rightarrow> (Some err, s'))"
  by (simp add: emitRow_def writeRow_def Let_def split: prod.splits)

lemma writeRow_room:
  assumes "writeRow ord s = (r, s')" "settled (Writer s)" "\<not> failed (Writer s)"
  shows "(r = None \<and> \<not> failed (Writer s') \<and> buffered (Writer s') = [] \<and>
          sheet (Writer s') = sheet (Writer s) @ [buildRow (ord (ranges s) (Record s))] \<and>
          Suc (room (Writer s')) = room (Writer s))
       \<or> (r \<noteq> None \<and> failed (Writer s') \<and> room (Writer s) = 0)"
  using assms
  by (auto simp add: writeRow_def Let_def Write_def Flush_def Error_def settled_def
      split: prod.splits if_splits)

lemma writeRow_failed:
  "writeRow ord s = (r, s') \<Longrightarrow> failed (Writer s) \<Longrightarrow>
   failed (Writer s') \<and> sheet (Writer s') = sheet (Writer s)"
  by (auto simp add: writeRow_def Let_def Write_def Flush_def Error_def
      split: prod.splits if_splits)



lemma writeRow_settled:
  "writeRow ord s = (r, s') \<Longrightarrow> settled (Writer s) \<Longrightarrow> settled (Writer s')"
  by (auto simp add: writeRow_def Let_def Write_def Flush_def Error_def settled_def
      split: prod.splits if_splits)

section \<open>One step of a worker and of the loop\<close>


lemma wstep_failed:
  assumes "wstep ord w s = (w', s')" and "failed (Writer s)"
  shows "failed (Writer s') \<and> sheet (Writer s') = sheet (Writer s)"
  using assms
  by (auto simp: wstep_def
      split: pending.splits option.splits list.splits ending.splits prod.splits if_splits
      dest!: writeRow_failed)

lemma wstep_settled:
  assumes "wstep ord w s = (w', s')" "settled (Writer s)"
  shows "settled (Writer s')"
proof -
  have "settled (Writer t)" if "writeRow ord (s\<lparr>Record := xRecord w\<rparr>) = (r, t)" for r t
    using writeRow_settled [OF that] assms(2) by simp
  with assms show ?thesis
    by (auto simp: wstep_def
        split: pending.splits option.splits list.splits ending.splits prod.splits if_splits)
qed


lemma wstep_account:
  assumes "visits_all ord" "settled (Writer s)" "\<not> failed (Writer s)" "wstep ord w s = (w', s')"
  shows "(\<not> failed (Writer s') \<and> written s' + owed w' = written s + owed w \<and>
          room (Writer s') + size (owed w) = room (Writer s) + size (owed w'))
       \<or> (failed (Writer s') \<and> room (Writer s) = 0 \<and> owed w \<noteq> {#})"
proof (cases "due w = Idle")
  case False
  with assms show ?thesis
    by (cases "due w") (auto simp: wstep_def owed_def written_def)
next
  case True
  show ?thesis
  proof (cases "calls w")
    case Nil
    with True assms show ?thesis
      by (auto simp: wstep_def owed_def written_def
          split: list.splits option.splits prod.splits if_splits)
  next
    case (Cons c cs)
    show ?thesis
    proof (cases "atEnd w")
      case SyntaxError
      with True Cons assms show ?thesis
        by (auto simp: wstep_def owed_def written_def)
    next
      case EOF
      obtain r t where e: "writeRow ord (s\<lparr>Record := xRecord w\<rparr>) = (r, t)"
        by (cases "writeRow ord (s\<lparr>Record := xRecord w\<rparr>)")
      from writeRow_room [OF e] assms(2,3)
      consider "r = None" "\<not> failed (Writer t)"
          "sheet (Writer t) = sheet (Writer s) @ [buildRow (ord (ranges s) (xRecord w))]"
          "Suc (room (Writer t)) = room (Writer s)"
        | "r \<noteq> None" "failed (Writer t)" "room (Writer s) = 0"
        by auto
      then show ?thesis
      proof cases
        case 1
        have "mset (buildRow (ord (ranges s) (xRecord w))) = cells (xRecord w)"
          by (simp add: cells_def mset_buildRow [OF assms(1)])
        with 1 True Cons EOF e assms(4) show ?thesis
          by (auto simp: wstep_def owed_def written_def rows_of_def)
      next
        case 2
        with True Cons EOF e assms(4) show ?thesis
          by (auto simp: wstep_def owed_def)
      qed
    qed
  qed
qed

lemma mstep_Writer: "mstep p s = (p', s') \<Longrightarrow> Writer s' = Writer s"
  by (auto simp: mstep_def split: list.splits option.splits if_splits)




lemma owed_starting: "owed (starting path files) = later files []"
  by (simp add: owed_def starting_def)

lemma mstep_unwritten: "mstep p s = (p', s') \<Longrightarrow> unwritten p' = unwritten p"
  by (auto simp: mstep_def unwritten_def owed_starting split: list.splits option.splits if_splits)

lemma unwritten_update:
  "i < length ws \<Longrightarrow> unwritten (rd, ws[i := w]) + owed (ws ! i) = unwritten (rd, ws) + owed w"
  by (induction ws arbitrary: i) (auto simp: unwritten_def nth_Cons' split: nat.splits)

lemma owed_le_sum: "i < length ws \<Longrightarrow> size (owed (ws ! i)) \<le> size (sum_list (map owed ws))"
proof (induction ws arbitrary: i)
  case Nil
  then show ?case by simp
next
  case (Cons a ws)
  show ?case
  proof (cases i)
    case 0
    then show ?thesis by simp
  next
    case (Suc j)
    with Cons.prems have "j < length ws" by simp
    from Cons.IH [OF this] Suc show ?thesis by simp
  qed
qed

lemma owed_le_unwritten: "i < length ws \<Longrightarrow> size (owed (ws ! i)) \<le> size (unwritten (rd, ws))"
  using owed_le_sum [of i ws] by (simp add: unwritten_def)

lemma finished_owed: "finished w \<Longrightarrow> owed w = {#}"
  by (simp add: finished_def owed_def)

lemma finished_unwritten: "\<forall>w\<in>set ws. finished w \<Longrightarrow> unwritten ([], ws) = {#}"
  by (induction ws) (auto simp: unwritten_def finished_owed)

section \<open>Schedules\<close>

lemma run_append:
  "run ord (a @ b) p s = (case run ord a p s of (p', s') \<Rightarrow> run ord b p' s')"
proof (induction a arbitrary: p s)
  case Nil
  show ?case by simp
next
  case (Cons i a)
  show ?case
    by (cases i) (auto simp: Cons.IH split: prod.splits)
qed

lemma finish_finished: "finish ord w s = (w', s') \<Longrightarrow> finished w'"
proof (induction ord w s rule: finish.induct)
  case (1 ord w s)
  show ?case
  proof (cases "finished w")
    case True
    with "1.prems" show ?thesis by simp
  next
    case False
    obtain w1 s1 where step: "wstep ord w s = (w1, s1)" by (cases "wstep ord w s")
    from "1.prems" False step have rest: "finish ord w1 s1 = (w', s')" by simp
    from "1.IH" [OF False step [symmetric] rest] show ?thesis .
  qed
qed

text \<open>
  A worker that runs to its end takes the steps of a schedule, whatever the other workers
  are; so does the end of the run that \<open>workers\<close> adds to a schedule.
\<close>

lemma finish_schedule:
  "finish ord w s = (w', s') \<Longrightarrow>
   \<exists>sch. \<forall>rd ws. i < length ws \<and> ws ! i = w \<longrightarrow>
     run ord sch (rd, ws) s = ((rd, ws[i := w']), s')"
proof (induction ord w s rule: finish.induct)
  case (1 ord w s)
  show ?case
  proof (cases "finished w")
    case True
    with "1.prems" have "\<forall>rd ws. i < length ws \<and> ws ! i = w \<longrightarrow>
        run ord [] (rd, ws) s = ((rd, ws[i := w']), s')"
      by auto
    then show ?thesis ..
  next
    case False
    obtain w1 s1 where step: "wstep ord w s = (w1, s1)" by (cases "wstep ord w s")
    from "1.prems" False step have rest: "finish ord w1 s1 = (w', s')" by simp
    from "1.IH" [OF False step [symmetric] rest] obtain sch where
      sch: "\<forall>rd ws. i < length ws \<and> ws ! i = w1 \<longrightarrow>
        run ord sch (rd, ws) s1 = ((rd, ws[i := w']), s')"
      by blast
    have "\<forall>rd ws. i < length ws \<and> ws ! i = w \<longrightarrow>
        run ord (Suc i # sch) (rd, ws) s = ((rd, ws[i := w']), s')"
    proof (intro allI impI)
      fix rd :: "RootEntry list" and ws :: "worker list"
      assume i: "i < length ws \<and> ws ! i = w"
      then have "i < length (ws[i := w1]) \<and> ws[i := w1] ! i = w1" by simp
      with sch have "run ord sch (rd, ws[i := w1]) s1 = ((rd, ws[i := w1, i := w']), s')"
        by blast
      with i step show "run ord (Suc i # sch) (rd, ws) s = ((rd, ws[i := w']), s')"
        by simp
    qed
    then show ?thesis ..
  qed
qed

lemma Wait_schedule:
  "\<exists>sch ws'. run ord sch (rd, before @ ws) s = ((rd, before @ ws'), Wait ord ws s) \<and>
     (\<forall>w\<in>set ws'. finished w)"
proof (induction ws arbitrary: before s)
  case Nil
  have "run ord [] (rd, before @ []) s = ((rd, before @ []), Wait ord [] s) \<and>
     (\<forall>w\<in>set []. finished w)"
    by simp
  then show ?case by blast
next
  case (Cons w ws)
  obtain w1 s1 where f: "finish ord w s = (w1, s1)" by (cases "finish ord w s")
  from finish_schedule [OF f, of "length before"] obtain sch1 where
    "\<forall>rd ws'. length before < length ws' \<and> ws' ! length before = w \<longrightarrow>
       run ord sch1 (rd, ws') s = ((rd, ws'[length before := w1]), s1)"
    by blast
  then have 1: "run ord sch1 (rd, before @ w # ws) s = ((rd, (before @ [w1]) @ ws), s1)"
    by simp
  from Cons.IH [of "before @ [w1]" s1] obtain sch2 ws' where
    2: "run ord sch2 (rd, (before @ [w1]) @ ws) s1 = ((rd, (before @ [w1]) @ ws'), Wait ord ws s1)"
      "\<forall>w\<in>set ws'. finished w"
    by blast
  from 1 2 f finish_finished [OF f]
  have "run ord (sch1 @ sch2) (rd, before @ w # ws) s =
      ((rd, before @ w1 # ws'), Wait ord (w # ws) s) \<and> (\<forall>w\<in>set (w1 # ws'). finished w)"
    by (simp add: run_append)
  then show ?case by blast
qed

lemma alone_schedule:
  "\<forall>w\<in>set ws. finished w \<Longrightarrow>
   \<exists>sch ws'. run ord sch (reader, ws) s = (([], ws'), alone ord reader s) \<and>
     (\<forall>w\<in>set ws'. finished w)"
proof (induction reader arbitrary: ws s)
  case Nil
  then have "run ord [] ([], ws) s = (([], ws), alone ord [] s) \<and> (\<forall>w\<in>set ws. finished w)"
    by simp
  then show ?case by blast
next
  case (Cons zipper reader)
  show ?case
  proof (cases "\<not> Match (EntryName zipper) \<and> ReadDir zipper \<noteq> None")
    case False
    have "\<exists>s1. mstep (zipper # reader, ws) s = ((reader, ws), s1) \<and>
        alone ord (zipper # reader) s = alone ord reader s1"
      using False by (cases "ReadDir zipper") (simp_all add: mstep_def)
    then obtain s1 where m: "mstep (zipper # reader, ws) s = ((reader, ws), s1)"
      "alone ord (zipper # reader) s = alone ord reader s1"
      by blast
    from Cons.IH [OF Cons.prems, of s1] obtain sch ws' where
      "run ord sch (reader, ws) s1 = (([], ws'), alone ord reader s1)" "\<forall>w\<in>set ws'. finished w"
      by blast
    with m have "run ord (0 # sch) (zipper # reader, ws) s =
        (([], ws'), alone ord (zipper # reader) s) \<and> (\<forall>w\<in>set ws'. finished w)"
      by simp
    then show ?thesis by blast
  next
    case True
    then obtain files where files: "\<not> Match (EntryName zipper)" "ReadDir zipper = Some files"
      by auto
    let ?w = "starting (Join pathway (EntryName zipper)) files"
    from Cons.prems have "filter (\<lambda>w. \<not> finished w) ws = []"
      by (simp add: filter_empty_conv)
    with files have m: "mstep (zipper # reader, ws) s = ((reader, ws @ [?w]), s)"
      by (simp add: mstep_def MAXPROCS_def)
    obtain w1 s1 where f: "finish ord ?w s = (w1, s1)" by (cases "finish ord ?w s")
    from finish_schedule [OF f, of "length ws"] obtain sch1 where
      "\<forall>rd ws'. length ws < length ws' \<and> ws' ! length ws = ?w \<longrightarrow>
         run ord sch1 (rd, ws') s = ((rd, ws'[length ws := w1]), s1)"
      by blast
    then have 1: "run ord sch1 (reader, ws @ [?w]) s = ((reader, ws @ [w1]), s1)"
      by simp
    from Cons.prems finish_finished [OF f] have "\<forall>w\<in>set (ws @ [w1]). finished w"
      by simp
    from Cons.IH [OF this, of s1] obtain sch2 ws' where
      2: "run ord sch2 (reader, ws @ [w1]) s1 = (([], ws'), alone ord reader s1)"
        "\<forall>w\<in>set ws'. finished w"
      by blast
    from m 1 2 f files
    have "run ord (0 # sch1 @ sch2) (zipper # reader, ws) s =
        (([], ws'), alone ord (zipper # reader) s) \<and> (\<forall>w\<in>set ws'. finished w)"
      by (simp add: run_append)
    then show ?thesis by blast
  qed
qed

lemma workers_schedule:
  "\<exists>sch ws. run ord (schedule @ sch) (reader, []) s = (([], ws), workers ord schedule reader s) \<and>
     (\<forall>w\<in>set ws. finished w)"
proof -
  obtain reader1 ws1 s1 where r: "run ord schedule (reader, []) s = ((reader1, ws1), s1)"
    by (cases "run ord schedule (reader, []) s") auto
  from Wait_schedule [of ord reader1 "[]" ws1 s1] obtain sch2 ws2 where
    2: "run ord sch2 (reader1, ws1) s1 = ((reader1, ws2), Wait ord ws1 s1)"
      "\<forall>w\<in>set ws2. finished w"
    by auto
  from alone_schedule [OF 2(2), of ord reader1 "Wait ord ws1 s1"] obtain sch3 ws3 where
    3: "run ord sch3 (reader1, ws2) (Wait ord ws1 s1) =
        (([], ws3), alone ord reader1 (Wait ord ws1 s1))"
      "\<forall>w\<in>set ws3. finished w"
    by blast
  from r 2 3 have "run ord (schedule @ sch2 @ sch3) (reader, []) s =
      (([], ws3), workers ord schedule reader s) \<and> (\<forall>w\<in>set ws3. finished w)"
    by (simp add: run_append workers_def)
  then show ?thesis by blast
qed

section \<open>What every schedule keeps\<close>

lemma run_failed:
  "run ord schedule p s = (p', s') \<Longrightarrow> failed (Writer s) \<Longrightarrow>
   failed (Writer s') \<and> sheet (Writer s') = sheet (Writer s)"
proof (induction schedule arbitrary: p s)
  case Nil
  then show ?case by simp
next
  case (Cons i schedule)
  show ?case
  proof (cases i)
    case 0
    obtain p1 s1 where step: "mstep p s = (p1, s1)" by (cases "mstep p s")
    from mstep_Writer [OF step] Cons.IH [of p1 s1] Cons.prems 0 step
    show ?thesis by simp
  next
    case (Suc j)
    show ?thesis
    proof (cases "j < length (snd p)")
      case False
      with Cons Suc show ?thesis by simp
    next
      case True
      obtain w1 s1 where step: "wstep ord (snd p ! j) s = (w1, s1)"
        by (cases "wstep ord (snd p ! j) s")
      from wstep_failed [OF step Cons.prems(2)]
        Cons.IH [of "(fst p, (snd p)[j := w1])" s1] Cons.prems(1) True step Suc
      show ?thesis by simp
    qed
  qed
qed


lemma run_account:
  assumes "visits_all ord"
  shows "run ord schedule p s = (p', s') \<Longrightarrow> settled (Writer s) \<Longrightarrow> \<not> failed (Writer s) \<Longrightarrow>
     settled (Writer s') \<and>
     (\<not> failed (Writer s') \<longrightarrow>
        written s' + unwritten p' = written s + unwritten p \<and>
        room (Writer s') + size (unwritten p) = room (Writer s) + size (unwritten p')) \<and>
     (size (unwritten p) \<le> room (Writer s) \<longrightarrow> \<not> failed (Writer s'))"
proof (induction schedule arbitrary: p s)
  case Nil
  then show ?case by simp
next
  case (Cons i schedule)
  show ?case
  proof (cases i)
    case 0
    obtain p1 s1 where step: "mstep p s = (p1, s1)" by (cases "mstep p s")
    from Cons.prems(1) 0 step have rest: "run ord schedule p1 s1 = (p', s')" by simp
    from mstep_Writer [OF step] mstep_unwritten [OF step] Cons.prems(2,3)
      Cons.IH [OF rest]
    show ?thesis by (simp add: written_def)
  next
    case (Suc j)
    show ?thesis
    proof (cases "j < length (snd p)")
      case False
      with Cons Suc show ?thesis by simp
    next
      case True
      let ?ws = "snd p"
      let ?w = "?ws ! j"
      obtain w1 s1 where step: "wstep ord ?w s = (w1, s1)"
        by (cases "wstep ord ?w s")
      let ?p1 = "(fst p, ?ws[j := w1])"
      from Cons.prems(1) True step Suc have rest: "run ord schedule ?p1 s1 = (p', s')" by simp
      have settled1: "settled (Writer s1)"
        using wstep_settled [OF step Cons.prems(2)] .
      have upd: "unwritten ?p1 + owed ?w = unwritten p + owed w1"
        using unwritten_update [OF True, of "fst p" w1] by simp
      then have "size (unwritten ?p1 + owed ?w) = size (unwritten p + owed w1)" by simp
      then have upd_size: "size (unwritten ?p1) + size (owed ?w) = size (unwritten p) + size (owed w1)"
        by simp
      from wstep_account [OF assms Cons.prems(2,3) step]
      consider "\<not> failed (Writer s1)" "written s1 + owed w1 = written s + owed ?w"
          "room (Writer s1) + size (owed ?w) = room (Writer s) + size (owed w1)"
        | "failed (Writer s1)" "room (Writer s) = 0" "owed ?w \<noteq> {#}"
        by auto
      then show ?thesis
      proof cases
        case 1
        note IH = Cons.IH [OF rest settled1 1(1)]
        have "(written s1 + owed w1) + (unwritten ?p1 + owed ?w) =
            (written s + owed ?w) + (unwritten p + owed w1)"
          by (simp only: 1(2) upd)
        then have "(written s1 + unwritten ?p1) + (owed w1 + owed ?w) =
            (written s + unwritten p) + (owed w1 + owed ?w)"
          by (simp add: ac_simps)
        then have w: "written s1 + unwritten ?p1 = written s + unwritten p"
          by simp
        from 1(3) upd_size have r: "room (Writer s1) + size (unwritten p) = room (Writer s) + size (unwritten ?p1)"
          by arith
        from IH w r show ?thesis
          by auto
      next
        case 2
        from run_failed [OF rest 2(1)] have f: "failed (Writer s')" by simp
        from 2(3) have "0 < size (owed ?w)" by (simp add: nonempty_has_size)
        with owed_le_unwritten [OF True, of "fst p"] have "0 < size (unwritten p)" by simp
        then have "unwritten p \<noteq> {#}" by auto
        with f 2(2) show ?thesis by (simp add: settled_def)
      qed
    qed
  qed
qed

section \<open>What the workers leave behind\<close>



lemma workers_account:
  assumes "visits_all ord" "settled (Writer s)" "\<not> failed (Writer s)"
  shows "settled (Writer (workers ord schedule reader s)) \<and>
     (failed (Writer (workers ord schedule reader s)) \<longleftrightarrow> room (Writer s) < size (demand reader)) \<and>
     (\<not> failed (Writer (workers ord schedule reader s)) \<longrightarrow>
        written (workers ord schedule reader s) = written s + demand reader)"
proof -
  from workers_schedule [of ord schedule reader s] obtain sch ws where
    r: "run ord (schedule @ sch) (reader, []) s = (([], ws), workers ord schedule reader s)"
    and fin: "\<forall>w\<in>set ws. finished w"
    by blast
  have "unwritten (reader, []) = demand reader" by (simp add: unwritten_def)
  with run_account [OF assms(1) r assms(2,3)] finished_unwritten [OF fin]
  show ?thesis by auto
qed

section \<open>The run as a whole\<close>

lemma ParseXMLs_unfold:
  "ParseXMLs ord schedule fs =
     (if \<not> Create fs then (Some CreateFailed, [], [])
      else if Capacity fs = 0 then (Some HeaderFlushFailed, [], [])
      else case Root fs of
             None \<Rightarrow> (Some ReadDirFailed, [header], [])
           | Some reader \<Rightarrow>
               (let s = workers ord schedule reader (started (Capacity fs));
                    w3 = Flush (Writer s)
                in if Error w3 then (Some FinalFlushFailed, sheet w3, logged s)
                   else (None, sheet w3, logged s)))"
  by (simp add: ParseXMLs_def Write_def Flush_def Error_def Let_def started_def
      split: option.splits)

lemma ParseXMLs_outcome:
  assumes "visits_all ord" "Create fs" "Capacity fs \<noteq> 0" "Root fs = Some reader"
  shows "fst (ParseXMLs ord schedule fs) =
      (if Capacity fs - 1 < size (demand reader) then Some FinalFlushFailed else None) \<and>
     (\<not> Capacity fs - 1 < size (demand reader) \<longrightarrow>
        rows_of (fst (snd (ParseXMLs ord schedule fs))) = {#mset header#} + demand reader)"
proof -
  let ?s = "workers ord schedule reader (started (Capacity fs))"
  have start: "settled (Writer (started (Capacity fs)))" "\<not> failed (Writer (started (Capacity fs)))"
    "room (Writer (started (Capacity fs))) = Capacity fs - 1"
    "written (started (Capacity fs)) = {#mset header#}"
    by (simp_all add: started_def settled_def written_def rows_of_def)
  from workers_account [OF assms(1) start(1,2), of schedule reader] start(3,4)
  have acc: "settled (Writer ?s)"
    "failed (Writer ?s) \<longleftrightarrow> Capacity fs - 1 < size (demand reader)"
    "\<not> failed (Writer ?s) \<longrightarrow> written ?s = {#mset header#} + demand reader"
    by simp_all
  from acc(1) have flush: "failed (Flush (Writer ?s)) = failed (Writer ?s)"
    "sheet (Flush (Writer ?s)) = sheet (Writer ?s)"
    by (auto simp: settled_def Flush_def)
  from assms(2-4) flush acc(2,3) show ?thesis
    by (simp add: ParseXMLs_unfold Let_def Error_def written_def)
qed

section \<open>The runs of the trees\<close>

lemmas conc_simps =
  ParseXMLs_def workers_def wstep_def finished_def starting_def mstep_def MAXPROCS_def
  writeRow_def Join_def Clean_def step_up_def pathway_def eval_nat_numeral

lemma worked_tree_listed:
  "ParseXMLs listed [] worked_tree = (None, [header, worked_row, worked_row, worked_row], [])"
  by (simp add: worked_tree_def worked_def worked_row_def header_def conc_simps run_simps)

lemma worked_tree_rotated:
  "ParseXMLs rotated [] worked_tree =
     (None, [header, rotate1 worked_row, rotate1 worked_row, rotate1 worked_row], [])"
  by (simp add: worked_tree_def worked_def worked_row_def header_def conc_simps run_simps)


lemma two_shards_listed:
  "ParseXMLs listed [] two_shards = (None, [header, [''x'', []], [''y'', []]], [])"
  by (simp add: two_shards_def example_defs header_def conc_simps run_simps)

lemma two_shards_rotated:
  "ParseXMLs rotated [0, 0, 2, 2] two_shards = (None, [header, [[], ''y''], [[], ''x'']], [])"
  by (simp add: two_shards_def example_defs header_def conc_simps run_simps)

section \<open>The claims\<close>

text \<open>
  C1. The width of a row. A row is built from the record alone, one cell for each entry,
  and the header of five columns is not consulted. So a row need not have five cells; what
  holds is that every row which the flattening of a document appends to the file has
  exactly as many cells as the record has keys when the document ends.
\<close>

theorem row_has_one_cell_per_key:
  assumes "visits_all ord" and "settled (Writer s)" and "distinct (map fst (Record s))"
    and "flatten ord element decoder prefix s = (r, d', s')"
  shows "\<exists>rows. sheet (Writer s') = sheet (Writer s) @ rows \<and>
           (\<forall>row\<in>set rows. length row = card (dom (map_of (Record s'))))"
proof -
  note run = assms(4) [unfolded flatten_def]
  from flatten_loop_rows [OF run assms(2)] obtain rows where
    rows: "sheet (Writer s') = sheet (Writer s) @ rows"
      "\<forall>row\<in>set rows. \<exists>n. row = buildRow (ord n (Record s'))"
    by blast
  from flatten_loop_distinct [OF run assms(3)] have "card (dom (map_of (Record s'))) = length (Record s')"
    by (rule card_keys)
  with rows(2) assms(1) have "\<forall>row\<in>set rows. length row = card (dom (map_of (Record s')))"
    by (auto simp: length_buildRow)
  with rows(1) show ?thesis by blast
qed

text \<open>
  The worked example, with the entries visited as inserted: three rows of three cells.
\<close>

theorem row_has_one_cell_per_key_witness:
  "visits_all listed \<and> settled (Writer (fresh 10)) \<and> distinct (map fst (Record (fresh 10))) \<and>
   (\<exists>rows. [worked_row, worked_row, worked_row] = [] @ rows \<and>
      (\<forall>row\<in>set rows. length row = card (dom (map_of worked_record))))"
proof -
  have h: "settled (Writer (fresh 10))" "distinct (map fst (Record (fresh 10)))"
    by (simp_all add: fresh_def settled_def)
  from row_has_one_cell_per_key [OF visits_all_listed h worked_run]
  show ?thesis using h visits_all_listed by (simp add: fresh_def)
qed

text \<open>
  The claim as the specification states it fails on the worked example: the run writes the
  header and rows of three cells.
\<close>

theorem row_width_counterexample:
  "fst (snd (ParseXMLs listed [] worked_tree)) = [header, worked_row, worked_row, worked_row] \<and>
   length worked_row \<noteq> length header"
  by (simp add: worked_tree_listed worked_row_def header_def)

text \<open>
  C2. The record of a worker. The record is made once for a worker (line 79), and
  \<^verbatim>\<open>generateRows\<close> passes the state that one document leaves on to the next: a shard
  processed in two parts is the second part processed from what the first part left. No
  document removes anything: what a key holds before some documents is the beginning of what
  it holds after them.
\<close>

theorem record_kept_between_documents:
  "generateRows ord root (before @ after) s =
     generateRows ord root after (snd (generateRows ord root before s)) \<and>
   (map_of (Record s) k = Some data \<longrightarrow>
     (\<exists>more. map_of (Record (snd (generateRows ord root files s))) k = Some (data @ more)))"
  using generateRows_grows [of ord root files s "fst (generateRows ord root files s)"
      "snd (generateRows ord root files s)" k data]
  by (simp add: generateRows_append)

text \<open>
  A record that holds \<^verbatim>\<open>x\<close> under \<^verbatim>\<open>.a\<close>, and a shard whose first document records
  \<^verbatim>\<open>x\<close> under \<^verbatim>\<open>.a\<close> again.
\<close>

theorem record_kept_between_documents_witness:
  "map_of (Record ((fresh 10)\<lparr>Record := [(''.a'', [''x''])]\<rparr>)) ''.a'' = Some [''x''] \<and>
   map_of (Record (snd (generateRows listed ''2023'' (shard doc_a doc_b)
       ((fresh 10)\<lparr>Record := [(''.a'', [''x''])]\<rparr>)))) ''.a'' = Some ([''x''] @ [''x''])"
  using record_kept_between_documents [of listed "''2023''" "[]" "[]"
      "(fresh 10)\<lparr>Record := [(''.a'', [''x''])]\<rparr>" "''.a''" "[''x'']" "shard doc_a doc_b"]
  by (simp add: example_defs run_simps)

text \<open>
  The claim as stated fails: the row of the second document, \<^verbatim>\<open><b>y</b>\<close>, holds the
  value \<^verbatim>\<open>x\<close> of the first document, \<^verbatim>\<open><a>x</a>\<close>.
\<close>

theorem record_carried_counterexample:
  "generateRows listed ''2023'' (shard doc_a doc_b) (fresh 10) =
     (None,
      \<lparr>Record = [(''.a'', [''x'']), ([], []), (''.b'', [''y''])],
       Writer = \<lparr>sheet = [[''x'', []], [''x'', [], ''y'']], buffered = [], room = 8,
                  failed = False\<rparr>,
       myInt = 2, logged = [], ranges = 2\<rparr>)"
  by (simp add: example_defs run_simps)




text \<open>
  C4. The worked example. Flattened into an empty record, the document gives the paths
  \<^verbatim>\<open>.Return.EIN\<close> and \<^verbatim>\<open>.Return.Filer.Name\<close> with their values and, besides them,
  the empty key with no value. Every row written for the document holds the cells
  \<^verbatim>\<open>12-3456789\<close>, \<^verbatim>\<open>ACME\<close> and one empty cell, in the order in which the map is
  walked; no header column is involved.
\<close>

theorem worked_example:
  assumes "visits_all ord" and "settled (Writer s)" and "Record s = []"
    and "flatten ord [] (worked, EOF) [] s = (r, d', s')"
  shows "Record s' = worked_record \<and>
     map_of worked_record =
       [''.Return.EIN'' \<mapsto> [''12-3456789''], ''.Return.Filer.Name'' \<mapsto> [''ACME''], [] \<mapsto> []] \<and>
     (\<exists>rows. sheet (Writer s') = sheet (Writer s) @ rows \<and>
        (\<forall>row\<in>set rows. mset row = {#''12-3456789'', ''ACME'', []#}))"
proof -
  from worked_Record [OF assms(3), of ord EOF] assms(4) have rec: "Record s' = worked_record"
    by simp
  have m: "map_of worked_record =
       [''.Return.EIN'' \<mapsto> [''12-3456789''], ''.Return.Filer.Name'' \<mapsto> [''ACME''], [] \<mapsto> []]"
    by (auto simp: worked_record_def fun_eq_iff)
  from flatten_loop_rows [OF assms(4) [unfolded flatten_def] assms(2)] obtain rows where
    rows: "sheet (Writer s') = sheet (Writer s) @ rows"
      "\<forall>row\<in>set rows. \<exists>n. row = buildRow (ord n (Record s'))"
    by blast
  have "mset (buildRow (ord n worked_record)) = {#''12-3456789'', ''ACME'', []#}" for n
    by (simp add: mset_buildRow [OF assms(1)] worked_record_def cell_def)
  with rows(2) rec have "\<forall>row\<in>set rows. mset row = {#''12-3456789'', ''ACME'', []#}"
    by auto
  with rec m rows(1) show ?thesis by blast
qed

text \<open>
  The same with the entries visited from the second on.
\<close>

theorem worked_example_witness:
  "visits_all rotated \<and> settled (Writer (fresh 10)) \<and> Record (fresh 10) = [] \<and>
   Record (snd (snd (flatten rotated [] (worked, EOF) [] (fresh 10)))) = worked_record \<and>
   (\<exists>rows. sheet (Writer (snd (snd (flatten rotated [] (worked, EOF) [] (fresh 10))))) = [] @ rows \<and>
      (\<forall>row\<in>set rows. mset row = {#''12-3456789'', ''ACME'', []#}))"
proof -
  have h: "settled (Writer (fresh 10))" "Record (fresh 10) = []"
    by (simp_all add: fresh_def settled_def)
  have "sheet (Writer (fresh 10)) = []"
    by (simp add: fresh_def)
  with worked_example [OF visits_all_rotated h, of "fst (flatten rotated [] (worked, EOF) [] (fresh 10))"
      "fst (snd (flatten rotated [] (worked, EOF) [] (fresh 10)))"
      "snd (snd (flatten rotated [] (worked, EOF) [] (fresh 10)))"]
  show ?thesis using h visits_all_rotated by simp
qed

text \<open>
  The claim as stated fails: the record has a third key, the empty string, and the rows
  have three cells.
\<close>

theorem worked_example_counterexample:
  "flatten listed [] (worked, EOF) [] (fresh 10) =
     (None, ([], EOF),
      \<lparr>Record = [(''.Return.EIN'', [''12-3456789'']), ([], []),
                 (''.Return.Filer.Name'', [''ACME''])],
       Writer = \<lparr>sheet = [[''12-3456789'', [], ''ACME''], [''12-3456789'', [], ''ACME''],
                          [''12-3456789'', [], ''ACME'']],
                  buffered = [], room = 7, failed = False\<rparr>,
       myInt = 3, logged = [], ranges = 3\<rparr>)"
  by (simp add: worked_def fresh_def run_simps)




text \<open>
  C6. Elements without text. The only keys that a document binds to the empty sequence
  are the empty string and local names of its start elements; every other key that it adds
  to the record comes with a text. An element that closes without text is not entered
  under its path.
\<close>

theorem empty_sequences_under_bare_names:
  assumes "flatten ord element (ts, fin) prefix s = (r, d', s')" and "map_of (Record s') k = Some []"
  shows "map_of (Record s) k = Some [] \<or> k = [] \<or> StartElement k \<in> set ts"
  using flatten_loop_empty [OF assms(1) [unfolded flatten_def] assms(2)] by simp

text \<open>
  The key \<^verbatim>\<open>Filer\<close> in the record of the document with an empty \<^verbatim>\<open>Filer\<close>
  element.
\<close>

theorem empty_sequences_under_bare_names_witness:
  "map_of (Record (snd (snd (flatten listed [] (spaced, EOF) [] (fresh 10))))) ''Filer'' = Some [] \<and>
   (map_of (Record (fresh 10)) ''Filer'' = Some [] \<or> ''Filer'' = [] \<or> StartElement ''Filer'' \<in> set spaced)"
proof -
  have h: "map_of (Record (snd (snd (flatten listed [] (spaced, EOF) [] (fresh 10))))) ''Filer'' = Some []"
    by (simp add: example_defs run_simps)
  have run: "flatten listed [] (spaced, EOF) [] (fresh 10) =
      (fst (flatten listed [] (spaced, EOF) [] (fresh 10)),
       fst (snd (flatten listed [] (spaced, EOF) [] (fresh 10))),
       snd (snd (flatten listed [] (spaced, EOF) [] (fresh 10))))"
    by simp
  from empty_sequences_under_bare_names [OF run h]
  show ?thesis using h by simp
qed

text \<open>
  The claim as stated fails: the element \<^verbatim>\<open>Filer\<close> closes without text, and the record
  has no entry for \<^verbatim>\<open>.Return.Filer\<close>; its keys are the empty string and
  \<^verbatim>\<open>Filer\<close>.
\<close>

theorem empty_element_counterexample:
  "Record (snd (snd (flatten listed [] (spaced, EOF) [] (fresh 10)))) = [([], []), (''Filer'', [])] \<and>
   map_of (Record (snd (snd (flatten listed [] (spaced, EOF) [] (fresh 10))))) ''.Return.Filer'' = None"
  by (simp add: example_defs run_simps)

text \<open>
  C7. Running again. Two runs over the same tree return the same error, whatever the
  orders in which they walk the map and whatever the schedules of their workers. When a
  run returns \<^verbatim>\<open>nil\<close>, every other run writes the same rows as it, counted with
  multiplicity, if a row is taken for the multiset of its cells. Neither the order of the
  rows in the file nor the order of the cells within a row is fixed.
\<close>

theorem rows_equal_up_to_cell_order:
  assumes "visits_all ord" and "visits_all ord'"
  shows "fst (ParseXMLs ord schedule fs) = fst (ParseXMLs ord' schedule' fs) \<and>
     (fst (ParseXMLs ord schedule fs) = None \<longrightarrow>
        image_mset mset (mset (fst (snd (ParseXMLs ord schedule fs)))) =
        image_mset mset (mset (fst (snd (ParseXMLs ord' schedule' fs)))))"
proof (cases "Create fs \<and> Capacity fs \<noteq> 0 \<and> Root fs \<noteq> None")
  case False
  then show ?thesis
    by (auto simp: ParseXMLs_unfold split: option.splits)
next
  case True
  then obtain reader where reader: "Create fs" "Capacity fs \<noteq> 0" "Root fs = Some reader"
    by auto
  from ParseXMLs_outcome [OF assms(1) reader, of schedule]
    ParseXMLs_outcome [OF assms(2) reader, of schedule']
  show ?thesis
    by (simp add: rows_of_def split: if_splits)
qed

text \<open>
  The two shards, once with the workers one after the other and the entries visited as
  inserted, once with the row of the second shard written first and the entries visited
  from the second on.
\<close>

theorem rows_equal_up_to_cell_order_witness:
  "visits_all listed \<and> visits_all rotated \<and>
   fst (ParseXMLs listed [] two_shards) = None \<and>
   fst (ParseXMLs rotated [0, 0, 2, 2] two_shards) = None \<and>
   fst (snd (ParseXMLs listed [] two_shards)) = [header, [''x'', []], [''y'', []]] \<and>
   fst (snd (ParseXMLs rotated [0, 0, 2, 2] two_shards)) = [header, [[], ''y''], [[], ''x'']] \<and>
   image_mset mset (mset [header, [''x'', []], [''y'', []]]) =
   image_mset mset (mset [header, [[], ''y''], [[], ''x'']])"
proof -
  from rows_equal_up_to_cell_order [OF visits_all_listed visits_all_rotated,
      of "[]" two_shards "[0, 0, 2, 2]"]
  have "fst (ParseXMLs listed [] two_shards) = fst (ParseXMLs rotated [0, 0, 2, 2] two_shards)"
    and "fst (ParseXMLs listed [] two_shards) = None \<longrightarrow>
      image_mset mset (mset (fst (snd (ParseXMLs listed [] two_shards)))) =
      image_mset mset (mset (fst (snd (ParseXMLs rotated [0, 0, 2, 2] two_shards))))"
    by blast+
  then show ?thesis
    using visits_all_listed visits_all_rotated
    by (simp add: two_shards_listed two_shards_rotated)
qed

text \<open>
  The claim as stated fails: the two runs over the worked example do not write the same
  multiset of rows, since the cells of each row stand in another order.
\<close>

theorem row_content_counterexample:
  "mset (fst (snd (ParseXMLs listed [] worked_tree))) \<noteq>
   mset (fst (snd (ParseXMLs rotated [] worked_tree)))"
proof
  assume "mset (fst (snd (ParseXMLs listed [] worked_tree))) =
    mset (fst (snd (ParseXMLs rotated [] worked_tree)))"
  then have "set (fst (snd (ParseXMLs listed [] worked_tree))) =
      set (fst (snd (ParseXMLs rotated [] worked_tree)))"
    by (rule mset_eq_setD)
  moreover have "worked_row \<in> set (fst (snd (ParseXMLs listed [] worked_tree)))"
    by (simp add: worked_tree_listed)
  ultimately have "worked_row \<in> set (fst (snd (ParseXMLs rotated [] worked_tree)))"
    by blast
  then show False
    by (simp add: worked_tree_rotated worked_row_def header_def)
qed

text \<open>
  C8. Repeated groups. In the document with two \<^verbatim>\<open>Officer\<close> elements, each with a
  \<^verbatim>\<open>Name\<close>, the path \<^verbatim>\<open>.Return.Officer.Name\<close> occurs twice. The record holds
  \<^verbatim>\<open>ANN\<close> under it and \<^verbatim>\<open>BOB\<close> under \<^verbatim>\<open>.Return.Officer.Officer.Name\<close>: line
  174 has put the child \<^verbatim>\<open>Name\<close> into \<^verbatim>\<open>element\<close>, so the end tag of the first
  \<^verbatim>\<open>Officer\<close> is compared with \<^verbatim>\<open>Name\<close>, the call for the first \<^verbatim>\<open>Officer\<close>
  does not return, and the second \<^verbatim>\<open>Officer\<close> is read as its child.
\<close>

theorem repeated_group_evaluated:
  "Record (snd (snd (flatten listed [] (officers, EOF) [] (fresh 10)))) =
     [(''.Return.Officer.Name'', [''ANN'']), ([], []), (''.Return.Officer.Officer.Name'', [''BOB''])]"
  by (simp add: example_defs run_simps)

text \<open>
  C9. A record entry with no value gives the empty cell, an entry with one value gives
  that value, and an entry with more than one value gives the values joined in their
  order with nothing between them; the row holds these cells, one per entry, in the order
  in which the loop visits the entries.
\<close>

theorem cell_of_values:
  "cell [] = [] \<and> cell [v] = v \<and> (1 < length data \<longrightarrow> cell data = concat data) \<and>
   buildRow (ord n m) = map (\<lambda>(k, data). cell data) (ord n m)"
  by (simp add: cell_many buildRow_map) (simp add: cell_def)

theorem cell_of_values_witness:
  "cell [] = [] \<and> cell [''ABC''] = ''ABC'' \<and> 1 < length [''AB'', ''C''] \<and>
   cell [''AB'', ''C''] = ''ABC'' \<and>
   buildRow (rotated 0 [(''.a'', [''AB'', ''C'']), (''.b'', []), (''.c'', [''ABC''])]) =
     [[], ''ABC'', ''ABC'']"
  using cell_of_values [of "''ABC''" "[''AB'', ''C'']" rotated 0
      "[(''.a'', [''AB'', ''C'']), (''.b'', []), (''.c'', [''ABC''])]"]
  by (simp add: rotated_def)

text \<open>
  C10. Bare tag names as keys. Character data makes \<^verbatim>\<open>lastTag\<close> a key of the record,
  bound to the empty sequence when the key is new and the text was not recorded under that
  very key. \<^verbatim>\<open>lastTag\<close> is empty when a call of \<^verbatim>\<open>flatten\<close> begins, and after a child
  \<^verbatim>\<open>n\<close> has been read the loop goes on with \<^verbatim>\<open>lastTag\<close> equal to \<^verbatim>\<open>n\<close>. So for
  every document whose tokens nest and hold character data, the record ends with a key
  that is the empty string or the local name of a start element, and every row written for
  the document holds the cell of every entry of the record, this one among them.
\<close>

theorem bare_names_registered:
  "map_of (onCharData prefix lastTag t m) lastTag \<noteq> None \<and>
   (map_of m lastTag = None \<and> \<not> (lastTag = prefix \<and> TrimSpace t \<noteq> []) \<longrightarrow>
      map_of (onCharData prefix lastTag t m) lastTag = Some []) \<and>
   flatten ord element (CharData t # ts, fin) prefix s =
     flatten_loop ord element [] prefix (ts, fin)
       (s\<lparr>Record := onCharData prefix [] t (Record s)\<rparr>) \<and>
   (fst (flatten ord n (ts, fin) (prefix @ ''.'' @ n) s) = None \<longrightarrow>
      flatten_loop ord element lastTag prefix (StartElement n # ts, fin) s =
        flatten_loop ord n n prefix
          (fst (snd (flatten ord n (ts, fin) (prefix @ ''.'' @ n) s)))
          (snd (snd (flatten ord n (ts, fin) (prefix @ ''.'' @ n) s)))) \<and>
   (visits_all ord \<and> settled (Writer s) \<and> nesting 0 doc \<and> CharData c \<in> set doc \<and>
    flatten ord [] (doc, fin) [] s = (r, d', s') \<longrightarrow>
      (\<exists>k. map_of (Record s') k \<noteq> None \<and> (k = [] \<or> StartElement k \<in> set doc)) \<and>
      (\<exists>rows. sheet (Writer s') = sheet (Writer s) @ rows \<and>
         (\<forall>row\<in>set rows. mset row = image_mset (\<lambda>(k, data). cell data) (mset (Record s')))))"
proof (intro conjI impI)
  show "map_of (onCharData prefix lastTag t m) lastTag \<noteq> None"
    by (rule onCharData_registers)
next
  assume "map_of m lastTag = None \<and> \<not> (lastTag = prefix \<and> TrimSpace t \<noteq> [])"
  then show "map_of (onCharData prefix lastTag t m) lastTag = Some []"
    using onCharData_absent [of m lastTag prefix t] by auto
next
  show "flatten ord element (CharData t # ts, fin) prefix s =
     flatten_loop ord element [] prefix (ts, fin)
       (s\<lparr>Record := onCharData prefix [] t (Record s)\<rparr>)"
    by (simp add: flatten_def)
next
  assume "fst (flatten ord n (ts, fin) (prefix @ ''.'' @ n) s) = None"
  then show "flatten_loop ord element lastTag prefix (StartElement n # ts, fin) s =
        flatten_loop ord n n prefix
          (fst (snd (flatten ord n (ts, fin) (prefix @ ''.'' @ n) s)))
          (snd (snd (flatten ord n (ts, fin) (prefix @ ''.'' @ n) s)))"
    by (simp add: flatten_def Let_def)
next
  assume h: "visits_all ord \<and> settled (Writer s) \<and> nesting 0 doc \<and> CharData c \<in> set doc \<and>
    flatten ord [] (doc, fin) [] s = (r, d', s')"
  then have run: "flatten_loop ord [] [] [] (doc, fin) s = (r, d', s')"
    by (simp add: flatten_def)
  from h flatten_reads_all [of ord doc fin s r d' s'] have "fst d' = []"
    by simp
  with flatten_loop_bare [OF run, of doc] h
  show "\<exists>k. map_of (Record s') k \<noteq> None \<and> (k = [] \<or> StartElement k \<in> set doc)"
    by auto
  from flatten_loop_rows [OF run] h obtain rows where
    rows: "sheet (Writer s') = sheet (Writer s) @ rows"
      "\<forall>row\<in>set rows. \<exists>n. row = buildRow (ord n (Record s'))"
    by blast
  from rows(2) h have "\<forall>row\<in>set rows. mset row = image_mset (\<lambda>(k, data). cell data) (mset (Record s'))"
    by (auto simp: mset_buildRow)
  with rows(1)
  show "\<exists>rows. sheet (Writer s') = sheet (Writer s) @ rows \<and>
         (\<forall>row\<in>set rows. mset row = image_mset (\<lambda>(k, data). cell data) (mset (Record s')))"
    by blast
qed

text \<open>
  The document with an empty \<^verbatim>\<open>Filer\<close> element: the text after it registers
  \<^verbatim>\<open>Filer\<close>, the text before it the empty string.
\<close>

theorem bare_names_registered_witness:
  "map_of [([], [])] ''Filer'' = None \<and>
   \<not> (''Filer'' = ''.Return'' \<and> TrimSpace [CHR 0x0A] \<noteq> []) \<and>
   map_of (onCharData ''.Return'' ''Filer'' [CHR 0x0A] [([], [])]) ''Filer'' = Some [] \<and>
   visits_all listed \<and> settled (Writer (fresh 10)) \<and> nesting 0 spaced \<and>
   CharData [CHR 0x0A] \<in> set spaced \<and>
   Record (snd (snd (flatten listed [] (spaced, EOF) [] (fresh 10)))) = [([], []), (''Filer'', [])] \<and>
   (\<exists>k. map_of (Record (snd (snd (flatten listed [] (spaced, EOF) [] (fresh 10))))) k \<noteq> None \<and>
      (k = [] \<or> StartElement k \<in> set spaced)) \<and>
   (\<exists>rows. sheet (Writer (snd (snd (flatten listed [] (spaced, EOF) [] (fresh 10))))) =
        sheet (Writer (fresh 10)) @ rows \<and>
      (\<forall>row\<in>set rows.
         mset row = image_mset (\<lambda>(k, data). cell data)
           (mset (Record (snd (snd (flatten listed [] (spaced, EOF) [] (fresh 10))))))))"
proof -
  have h1: "map_of [([], [])] ''Filer'' = None \<and>
      \<not> (''Filer'' = ''.Return'' \<and> TrimSpace [CHR 0x0A] \<noteq> [])"
    by simp
  have h2: "visits_all listed \<and> settled (Writer (fresh 10)) \<and> nesting 0 spaced \<and>
     CharData [CHR 0x0A] \<in> set spaced \<and>
     flatten listed [] (spaced, EOF) [] (fresh 10) =
       (fst (flatten listed [] (spaced, EOF) [] (fresh 10)),
        fst (snd (flatten listed [] (spaced, EOF) [] (fresh 10))),
        snd (snd (flatten listed [] (spaced, EOF) [] (fresh 10))))"
    by (simp add: visits_all_listed) (simp add: fresh_def settled_def spaced_def)
  have rec: "Record (snd (snd (flatten listed [] (spaced, EOF) [] (fresh 10)))) = [([], []), (''Filer'', [])]"
    by (simp add: spaced_run)
  note inst = bare_names_registered [where prefix = "''.Return''" and lastTag = "''Filer''"
      and t = "[CHR 0x0A]" and m = "[([], [])]" and ord = listed and s = "fresh 10"
      and doc = spaced and c = "[CHR 0x0A]" and fin = EOF and element = "[]" and ts = "[]"
      and n = "[]"
      and r = "fst (flatten listed [] (spaced, EOF) [] (fresh 10))"
      and d' = "fst (snd (flatten listed [] (spaced, EOF) [] (fresh 10)))"
      and s' = "snd (snd (flatten listed [] (spaced, EOF) [] (fresh 10)))"]
  have c1: "map_of (onCharData ''.Return'' ''Filer'' [CHR 0x0A] [([], [])]) ''Filer'' = Some []"
    by (rule mp [OF inst [THEN conjunct2, THEN conjunct1] h1])
  have c2: "(\<exists>k. map_of (Record (snd (snd (flatten listed [] (spaced, EOF) [] (fresh 10))))) k \<noteq> None \<and>
      (k = [] \<or> StartElement k \<in> set spaced)) \<and>
   (\<exists>rows. sheet (Writer (snd (snd (flatten listed [] (spaced, EOF) [] (fresh 10))))) =
        sheet (Writer (fresh 10)) @ rows \<and>
      (\<forall>row\<in>set rows.
         mset row = image_mset (\<lambda>(k, data). cell data)
           (mset (Record (snd (snd (flatten listed [] (spaced, EOF) [] (fresh 10))))))))"
    by (rule mp [OF inst [THEN conjunct2, THEN conjunct2, THEN conjunct2, THEN conjunct2] h2])
  from h1 h2 c1 c2 rec show ?thesis
    by blast
qed

end
